theory Spec2Isabelle
  imports Complex_Main "HOL-Library.Multiset"
begin

unbundle bit_operations_syntax

section \<open>Bracket manager: seeding\<close>

text \<open>
  \<^verbatim>\<open>buildBracketSeeds(numPlayers)\<close> of \<^verbatim>\<open>src/server/bracket-manager.ts\<close>.
  The source recurses on \<^verbatim>\<open>numPlayers / 2\<close> until the argument is exactly 2. On an
  argument that is not a power of two, at least 2, the JavaScript division leaves the
  integers (or reaches 1, 0.5, ...) and never meets the base case: the call does not
  return. That outcome is the value \<open>None\<close> here.
\<close>

fun interleave :: "nat \<Rightarrow> nat list \<Rightarrow> nat list" where
  "interleave numPlayers [] = []"
| "interleave numPlayers (seed # previousRound) =
     seed # (numPlayers + 1 - seed) # interleave numPlayers previousRound"

function buildBracketSeeds :: "nat \<Rightarrow> nat list option" where
  "buildBracketSeeds numPlayers =
     (if numPlayers = 2 then Some [1, 2]
      else if numPlayers < 2 \<or> odd numPlayers then None
      else map_option (interleave numPlayers) (buildBracketSeeds (numPlayers div 2)))"
  by pat_completeness auto
termination
  by (relation "measure (\<lambda>n. n)") auto

declare buildBracketSeeds.simps [simp del]

text \<open>
  \<^verbatim>\<open>generateStandardPairings\<close>: match \<open>i\<close> pairs \<open>seeds[2i]\<close> with \<open>seeds[2i+1]\<close>,
  for \<open>i < numPlayers / 2\<close>.
\<close>

fun pairUp :: "nat list \<Rightarrow> nat \<Rightarrow> (nat \<times> nat) list" where
  "pairUp seeds 0 = []"
| "pairUp seeds (Suc i) = pairUp seeds i @ [(seeds ! (i * 2), seeds ! (i * 2 + 1))]"

definition generateStandardPairings :: "nat \<Rightarrow> (nat \<times> nat) list option" where
  "generateStandardPairings numPlayers =
     map_option (\<lambda>seeds. pairUp seeds (numPlayers div 2)) (buildBracketSeeds numPlayers)"


section \<open>Bracket manager: data model\<close>

text \<open>
  An identity (\<^verbatim>\<open>ID\<close>) is a string; the empty string is the empty slot of a
  match (JavaScript tests it with \<^verbatim>\<open>!nextMatch.player1\<close>). Numbers of the bracket
  are JavaScript numbers that hold integers: \<open>int\<close>.
\<close>

type_synonym ID = string

datatype match_status = Pending | Waiting | Active | Complete

text \<open>
  \<^verbatim>\<open>interface BracketMatch\<close>. The field \<^verbatim>\<open>round\<close> is \<open>roundNo\<close> here
  (\<open>round\<close> is the rounding function of the reals); \<^verbatim>\<open>startTime\<close> is never written
  or read by the source and is left out.
\<close>

record BracketMatch =
  roundNo :: int
  matchId :: int
  player1 :: ID
  player2 :: ID
  player1Display :: string
  player2Display :: string
  p1wins :: int
  p2wins :: int
  status :: match_status
  winner :: "ID option"
  winnerDisplay :: "string option"

text \<open>
  \<^verbatim>\<open>interface BracketState\<close>. \<^verbatim>\<open>playerMatches\<close> maps an identity to a reference to
  a match object that also sits in \<^verbatim>\<open>matches\<close>; the array is only ever appended to
  (by \<^verbatim>\<open>initialize\<close> and \<^verbatim>\<open>loadFromCSV\<close>), so the reference is the position of the
  object in \<open>matches\<close>, and a write through the reference is a write at that position.
\<close>

record BracketState =
  format :: string
  participants :: int
  bestOf :: int
  currentRound :: int
  matches :: "BracketMatch list"
  playerMatches :: "ID \<rightharpoonup> nat"
  displayNames :: "ID \<rightharpoonup> string"
  initialized :: bool
  frozen :: bool

text \<open>
  What \<^verbatim>\<open>Monitor.log\<close>, \<^verbatim>\<open>Monitor.warn\<close> and \<^verbatim>\<open>Monitor.error\<close> receive, one
  constructor per message of the source, with the values the message interpolates
  where a claim reads them.
\<close>

datatype log_event =
    LogInitialized nat
  | LogBestOf int
  | LogRound1
  | WarnNoActiveMatch ID
  | WarnWrongMatch ID ID
  | LogBeats ID ID
  | LogMatchComplete int
  | LogTournamentComplete ID
  | LogFrozenBlocked ID int
  | ErrorNoNextMatch int
  | LogAdvancing int int
  | ErrorBothPlayers int
  | LogMatchReady int int
  | LogWaitingForOpponent int
  | LogFrozen
  | LogResuming int
  | LogResumed
  | WarnOldFormat
  | LogLoaded
  | LogReset

text \<open>
  The \<^verbatim>\<open>BracketManager\<close> object: its \<^verbatim>\<open>state\<close>, the content of the file at
  \<^verbatim>\<open>csvPath\<close> (\<open>None\<close>: no file) and the monitor's log. The write queue
  (\<^verbatim>\<open>writeLock\<close>, \<^verbatim>\<open>isWriting\<close>) serialises the writes in call order; with the
  operations run one after the other, as here, each write is done when the operation
  returns.
\<close>

record BracketManager = BracketState +
  csvFile :: "string option"
  monitor :: "log_event list"

datatype error =
    AlreadyInitialized
  | NotPowerOfTwo nat
  | NoBracketActive
  | AlreadyFrozen
  | NotFrozen
  | DoesNotReturn

definition newBracketManager :: BracketManager where
  "newBracketManager =
     \<lparr>format = [], participants = 0, bestOf = 0, currentRound = 0, matches = [],
      playerMatches = Map.empty, displayNames = Map.empty, initialized = False,
      frozen = False, csvFile = None, monitor = []\<rparr>"

section \<open>Strings\<close>

text \<open>
  Modelled from the spec: \<^verbatim>\<open>toID\<close> is imported from \<^verbatim>\<open>sim/dex\<close>, which is not
  among the sources. The spec: "a canonicalized string derived from a display name by
  lowercasing and stripping non-alphanumerics".
\<close>

definition toLowerCase :: "char \<Rightarrow> char" where
  "toLowerCase c =
     (let n = of_char c :: nat in if 65 \<le> n \<and> n \<le> 90 then char_of (n + 32) else c)"

definition isAlphanumeric :: "char \<Rightarrow> bool" where
  "isAlphanumeric c =
     (let n = of_char c :: nat in (97 \<le> n \<and> n \<le> 122) \<or> (48 \<le> n \<and> n \<le> 57))"

definition toID :: "string \<Rightarrow> ID" where
  "toID text = filter isAlphanumeric (map toLowerCase text)"

text \<open>The decimal numeral of a number that holds an integer, as a template literal prints it.\<close>

definition digitChar :: "nat \<Rightarrow> char" where
  "digitChar d = char_of (48 + d)"

function showNat :: "nat \<Rightarrow> string" where
  "showNat n = (if n < 10 then [digitChar n] else showNat (n div 10) @ [digitChar (n mod 10)])"
  by pat_completeness auto
termination
  by (relation "measure (\<lambda>n. n)") auto

declare showNat.simps [simp del]

definition showInt :: "int \<Rightarrow> string" where
  "showInt i = (if i < 0 then CHR ''-'' # showNat (nat (- i)) else showNat (nat i))"

definition showBool :: "bool \<Rightarrow> string" where
  "showBool b = (if b then ''true'' else ''false'')"

definition showStatus :: "match_status \<Rightarrow> string" where
  "showStatus st =
     (case st of Pending \<Rightarrow> ''pending'' | Waiting \<Rightarrow> ''waiting''
      | Active \<Rightarrow> ''active'' | Complete \<Rightarrow> ''complete'')"

text \<open>\<^verbatim>\<open>parts.join(sep)\<close>.\<close>

fun joinWith :: "string \<Rightarrow> string list \<Rightarrow> string" where
  "joinWith sep [] = []"
| "joinWith sep [x] = x"
| "joinWith sep (x # y # ys) = x @ sep @ joinWith sep (y # ys)"

section \<open>Bracket manager: persistence, write path\<close>

text \<open>
  \<^verbatim>\<open>saveToCSV\<close>: the metadata line, the column header, one row per match. A null or
  empty \<^verbatim>\<open>winner\<close> prints as the empty string (\<^verbatim>\<open>m.winner || ''\<close>).
\<close>

definition orEmpty :: "string option \<Rightarrow> string" where
  "orEmpty v = (case v of None \<Rightarrow> [] | Some x \<Rightarrow> x)"

definition csvRow :: "BracketMatch \<Rightarrow> string" where
  "csvRow m =
     joinWith '','' [showInt (roundNo m), showInt (matchId m), player1 m, player2 m,
       player1Display m, player2Display m, showInt (p1wins m), showInt (p2wins m),
       showStatus (status m), orEmpty (winner m), orEmpty (winnerDisplay m)]"

definition csvHeader :: string where
  "csvHeader = ''round,matchId,player1,player2,player1Display,player2Display,p1wins,p2wins,status,winner,winnerDisplay''"

definition csvContent :: "'a BracketState_scheme \<Rightarrow> string" where
  "csvContent s =
     (''# format='' @ format s @ '',bestOf='' @ showInt (bestOf s)
        @ '',participants='' @ showInt (participants s)
        @ '',frozen='' @ showBool (frozen s) @ [CHR 0x0A])
     @ (csvHeader @ [CHR 0x0A])
     @ joinWith [CHR 0x0A] (map csvRow (matches s))"

definition saveToCSV :: "BracketManager \<Rightarrow> BracketManager" where
  "saveToCSV s = s\<lparr>csvFile := Some (csvContent s)\<rparr>"

section \<open>Bracket manager: initialize\<close>

text \<open>
  \<^verbatim>\<open>isPowerOfTwo(n)\<close>: \<^verbatim>\<open>n > 0 && (n & (n - 1)) === 0\<close>. The argument is an array
  length, below \<open>2^32\<close>, where the 32-bit conjunction of JavaScript is the conjunction
  of the naturals.
\<close>

definition isPowerOfTwo :: "nat \<Rightarrow> bool" where
  "isPowerOfTwo n \<longleftrightarrow> n > 0 \<and> n AND (n - 1) = 0"

text \<open>
  \<^verbatim>\<open>shuffleArray\<close> (Fisher-Yates). \<open>rnd i\<close> stands for the draw of \<^verbatim>\<open>Math.random()\<close>
  at loop index \<open>i\<close>, scaled: \<^verbatim>\<open>Math.floor(Math.random() * (i + 1))\<close> is
  \<open>rnd i mod (i + 1)\<close>.
\<close>

fun shuffleFrom :: "(nat \<Rightarrow> nat) \<Rightarrow> nat \<Rightarrow> 'a list \<Rightarrow> 'a list" where
  "shuffleFrom rnd 0 result = result"
| "shuffleFrom rnd (Suc i) result =
     (let j = rnd (Suc i) mod (Suc i + 1)
      in shuffleFrom rnd i (result[Suc i := result ! j, j := result ! Suc i]))"

definition shuffleArray :: "(nat \<Rightarrow> nat) \<Rightarrow> 'a list \<Rightarrow> 'a list" where
  "shuffleArray rnd array = shuffleFrom rnd (length array - 1) array"

text \<open>
  \<^verbatim>\<open>Math.log2(numPlayers)\<close>, called on a power of two only, where it is the exponent.
\<close>

function log2 :: "nat \<Rightarrow> nat" where
  "log2 n = (if n < 2 then 0 else Suc (log2 (n div 2)))"
  by pat_completeness auto
termination
  by (relation "measure (\<lambda>n. n)") auto

declare log2.simps [simp del]

text \<open>
  One pass of the first loop of \<^verbatim>\<open>initialize\<close>: the match of round 1 at loop index
  \<open>i\<close> is pushed, and both its players are mapped to the pushed object. The seeds are
  within \<open>1..numPlayers\<close> (see \<open>seeds_in_range\<close>), so \<^verbatim>\<open>seededPlayers[seed - 1]\<close> is
  a read within the array.
\<close>

definition firstRoundMatch :: "string list \<Rightarrow> nat \<Rightarrow> nat \<times> nat \<Rightarrow> BracketMatch" where
  "firstRoundMatch seededPlayers i pairing =
     (let p1Name = seededPlayers ! (fst pairing - 1);
          p2Name = seededPlayers ! (snd pairing - 1)
      in \<lparr>roundNo = 1, matchId = int i + 1, player1 = toID p1Name, player2 = toID p2Name,
          player1Display = p1Name, player2Display = p2Name, p1wins = 0, p2wins = 0,
          status = Active, winner = None, winnerDisplay = None\<rparr>)"

definition pushFirstRound ::
  "string list \<Rightarrow> (nat \<times> nat) list \<Rightarrow> nat \<Rightarrow> BracketManager \<Rightarrow> BracketManager" where
  "pushFirstRound seededPlayers standardPairings i s =
     (let match = firstRoundMatch seededPlayers i (standardPairings ! i);
          ref = length (matches s)
      in s\<lparr>matches := matches s @ [match],
           playerMatches := (playerMatches s)(player1 match \<mapsto> ref, player2 match \<mapsto> ref)\<rparr>)"

text \<open>
  The placeholder matches of the later rounds; the pair threads \<^verbatim>\<open>this.state.matches\<close>
  and the counter \<^verbatim>\<open>nextMatchId\<close>.
\<close>

definition placeholderMatch :: "int \<Rightarrow> int \<Rightarrow> BracketMatch" where
  "placeholderMatch r mid =
     \<lparr>roundNo = r, matchId = mid, player1 = [], player2 = [], player1Display = [],
      player2Display = [], p1wins = 0, p2wins = 0, status = Pending, winner = None,
      winnerDisplay = None\<rparr>"

definition pushPlaceholder :: "nat \<Rightarrow> BracketMatch list \<times> int \<Rightarrow> BracketMatch list \<times> int" where
  "pushPlaceholder r acc = (fst acc @ [placeholderMatch (int r) (snd acc)], snd acc + 1)"

definition pushRound :: "nat \<Rightarrow> nat \<Rightarrow> BracketMatch list \<times> int \<Rightarrow> BracketMatch list \<times> int" where
  "pushRound totalRounds r acc =
     fold (\<lambda>i. pushPlaceholder r) [0..<2 ^ (totalRounds - r)] acc"

definition pushPlaceholders :: "nat \<Rightarrow> BracketMatch list \<times> int \<Rightarrow> BracketMatch list \<times> int" where
  "pushPlaceholders totalRounds acc = fold (pushRound totalRounds) [2..<Suc totalRounds] acc"

text \<open>
  \<^verbatim>\<open>initialize\<close>. A throw is \<open>Inl\<close>; both throws come before the first write to the
  state, so the caller keeps the state it had. \<open>Inl DoesNotReturn\<close> is the outcome of
  a call of \<^verbatim>\<open>generateStandardPairings\<close> that does not return.
\<close>

definition initialize ::
  "BracketManager \<Rightarrow> string \<Rightarrow> string list \<Rightarrow> int \<Rightarrow> bool \<Rightarrow> (nat \<Rightarrow> nat) \<Rightarrow> error + BracketManager" where
  "initialize s fmt players bo randomize rnd =
     (if initialized s then Inl AlreadyInitialized
      else
        let numPlayers = length players in
        if numPlayers < 2 \<or> \<not> isPowerOfTwo numPlayers then Inl (NotPowerOfTwo numPlayers)
        else
          let seededPlayers = (if randomize then shuffleArray rnd players else players);
              s1 = s\<lparr>format := fmt, participants := int numPlayers, bestOf := bo,
                     currentRound := 1, matches := [], playerMatches := Map.empty,
                     displayNames := fold (\<lambda>player dn. dn(toID player \<mapsto> player))
                                       seededPlayers Map.empty\<rparr>
          in case generateStandardPairings numPlayers of
               None \<Rightarrow> Inl DoesNotReturn
             | Some standardPairings \<Rightarrow>
                 let numMatches = numPlayers div 2;
                     s2 = fold (pushFirstRound seededPlayers standardPairings) [0..<numMatches] s1;
                     totalRounds = log2 numPlayers;
                     s3 = s2\<lparr>matches :=
                            fst (pushPlaceholders totalRounds (matches s2, int numMatches + 1)),
                            initialized := True\<rparr>;
                     s4 = saveToCSV s3
                 in Inr (s4\<lparr>monitor := monitor s4 @
                           [LogInitialized numPlayers, LogBestOf (bo div 2 + 1), LogRound1]\<rparr>))"

section \<open>Bracket manager: queries\<close>

definition activeOrWaiting :: "BracketMatch \<Rightarrow> bool" where
  "activeOrWaiting m \<longleftrightarrow> status m = Active \<or> status m = Waiting"

text \<open>\<^verbatim>\<open>Math.min(...xs)\<close> and \<^verbatim>\<open>Math.max(...xs)\<close> of a list that is not empty.\<close>

definition minOf :: "int \<Rightarrow> int list \<Rightarrow> int" where
  "minOf x xs = fold min xs x"

definition maxOf :: "int \<Rightarrow> int list \<Rightarrow> int" where
  "maxOf x xs = fold max xs x"

definition getEarliestIncompleteRound :: "'a BracketState_scheme \<Rightarrow> int" where
  "getEarliestIncompleteRound s =
     (case map roundNo (filter activeOrWaiting (matches s)) of
        [] \<Rightarrow> currentRound s
      | r # rs \<Rightarrow> minOf r rs)"

definition canMatch :: "'a BracketState_scheme \<Rightarrow> ID \<Rightarrow> ID \<Rightarrow> bool" where
  "canMatch s userid1 userid2 =
     (if \<not> initialized s then False
      else case playerMatches s userid1 of
        None \<Rightarrow> False
      | Some ref \<Rightarrow>
          let match = matches s ! ref in
          if status match \<noteq> Active then False
          else if frozen s \<and> roundNo match \<noteq> getEarliestIncompleteRound s then False
          else (player1 match = userid1 \<and> player2 match = userid2) \<or>
               (player2 match = userid1 \<and> player1 match = userid2))"

definition canSearch :: "'a BracketState_scheme \<Rightarrow> ID \<Rightarrow> bool" where
  "canSearch s userid =
     (if \<not> initialized s then False
      else case playerMatches s userid of
        None \<Rightarrow> False
      | Some ref \<Rightarrow>
          let match = matches s ! ref in
          if status match \<noteq> Active \<and> status match \<noteq> Waiting then False
          else if frozen s \<and> roundNo match \<noteq> getEarliestIncompleteRound s then False
          else True)"

definition getOpponent :: "'a BracketState_scheme \<Rightarrow> ID \<Rightarrow> ID option" where
  "getOpponent s playerid =
     (case playerMatches s playerid of
        None \<Rightarrow> None
      | Some ref \<Rightarrow>
          let match = matches s ! ref in
          if status match \<noteq> Active then None
          else Some (if player1 match = playerid then player2 match else player1 match))"

section \<open>Bracket manager: recordWin and advanceWinner\<close>

text \<open>
  The positions in \<open>matches\<close> of the matches of a round, in array order:
  \<^verbatim>\<open>this.state.matches.filter(m => m.round === r)\<close>, as references.
\<close>

definition roundMatches :: "BracketMatch list \<Rightarrow> int \<Rightarrow> nat list" where
  "roundMatches ms r = filter (\<lambda>j. roundNo (ms ! j) = r) [0..<length ms]"

text \<open>\<^verbatim>\<open>xs[k]\<close> for a number \<open>k\<close> that holds an integer; \<open>None\<close> is \<^verbatim>\<open>undefined\<close>.\<close>

definition elemAt :: "'a list \<Rightarrow> int \<Rightarrow> 'a option" where
  "elemAt xs k = (if 0 \<le> k \<and> k < int (length xs) then Some (xs ! nat k) else None)"

text \<open>
  The match a completed match feeds, as both \<^verbatim>\<open>advanceWinner\<close> and \<^verbatim>\<open>resume\<close>
  compute it: \<open>None\<close> when \<^verbatim>\<open>nextRoundMatches[nextMatchIndex]\<close> is undefined.
  \<^verbatim>\<open>Math.min\<close> of an empty list is \<^verbatim>\<open>Infinity\<close>, which makes the index undefined too.
\<close>

definition nextMatchOf :: "BracketMatch list \<Rightarrow> nat \<Rightarrow> nat option" where
  "nextMatchOf ms c =
     (let completedMatch = ms ! c;
          nextRoundMatches = roundMatches ms (roundNo completedMatch + 1)
      in case map matchId (map ((!) ms) (roundMatches ms (roundNo completedMatch))) of
           [] \<Rightarrow> None
         | x # xs \<Rightarrow>
             let firstMatchOfRound = minOf x xs;
                 relativeMatchId = matchId completedMatch - firstMatchOfRound;
                 nextMatchIndex = relativeMatchId div 2
             in elemAt nextRoundMatches nextMatchIndex)"

text \<open>\<^verbatim>\<open>this.state.displayNames.get(winner) || winner\<close>.\<close>

definition displayOf :: "'a BracketState_scheme \<Rightarrow> ID \<Rightarrow> string" where
  "displayOf s w = (case displayNames s w of None \<Rightarrow> w | Some d \<Rightarrow> if d = [] then w else d)"

text \<open>
  The end of \<^verbatim>\<open>advanceWinner\<close> ("Check if next match is ready to start"), after the
  winner was written into a slot of the next match: \<open>n\<close> is the reference to the next
  match, \<open>placed\<close> the match with the winner in its slot.
\<close>

definition startIfReady :: "BracketManager \<Rightarrow> nat \<Rightarrow> int \<Rightarrow> BracketMatch \<Rightarrow> BracketManager" where
  "startIfReady s n nextRound placed =
     (if player1 placed \<noteq> [] \<and> player2 placed \<noteq> [] then
        s\<lparr>matches := (matches s)[n := placed\<lparr>status := Active\<rparr>],
          playerMatches := (playerMatches s)(player1 placed \<mapsto> n, player2 placed \<mapsto> n),
          currentRound := (if nextRound > currentRound s then nextRound else currentRound s),
          monitor := monitor s @ [LogMatchReady nextRound (matchId placed)]\<rparr>
      else
        s\<lparr>matches := (matches s)[n := placed\<lparr>status := Waiting\<rparr>],
          monitor := monitor s @ [LogWaitingForOpponent nextRound]\<rparr>)"

text \<open>
  \<^verbatim>\<open>advanceWinner(completedMatch)\<close>; \<open>c\<close> is the reference to the completed match.
  Both callers pass a match whose winner is set (\<^verbatim>\<open>completedMatch.winner!\<close>); the first
  case stands for a call outside of that.
\<close>

definition advanceWinner :: "BracketManager \<Rightarrow> nat \<Rightarrow> BracketManager" where
  "advanceWinner s c =
     (case winner (matches s ! c) of
        None \<Rightarrow> s
      | Some w \<Rightarrow>
        let completedMatch = matches s ! c;
            nextRound = roundNo completedMatch + 1;
            nextRoundMatches = roundMatches (matches s) nextRound
        in
        if nextRoundMatches = [] then s\<lparr>monitor := monitor s @ [LogTournamentComplete w]\<rparr>
        else if frozen s then
          s\<lparr>monitor := monitor s @ [LogFrozenBlocked w (matchId completedMatch)]\<rparr>
        else (case nextMatchOf (matches s) c of
          None \<Rightarrow> s\<lparr>monitor := monitor s @ [ErrorNoNextMatch (matchId completedMatch)]\<rparr>
        | Some n \<Rightarrow>
          let nextMatch = matches s ! n;
              winnerDisplay = displayOf s w;
              s1 = s\<lparr>monitor := monitor s @
                       [LogAdvancing (matchId completedMatch) (matchId nextMatch)]\<rparr>
          in
          if player1 nextMatch = [] then
            startIfReady s1 n nextRound
              (nextMatch\<lparr>player1 := w, player1Display := winnerDisplay\<rparr>)
          else if player2 nextMatch = [] then
            startIfReady s1 n nextRound
              (nextMatch\<lparr>player2 := w, player2Display := winnerDisplay\<rparr>)
          else s1\<lparr>monitor := monitor s1 @ [ErrorBothPlayers (matchId nextMatch)]\<rparr>))"

text \<open>
  \<^verbatim>\<open>recordWin(winner, loser)\<close>. The parameter \<^verbatim>\<open>winner\<close> is \<open>winnerId\<close> here (the
  record field has the name).
\<close>

definition recordWin :: "BracketManager \<Rightarrow> ID \<Rightarrow> ID \<Rightarrow> BracketManager" where
  "recordWin s winnerId loser =
     (case playerMatches s winnerId of
        None \<Rightarrow> s\<lparr>monitor := monitor s @ [WarnNoActiveMatch winnerId]\<rparr>
      | Some ref \<Rightarrow>
        let match = matches s ! ref in
        if \<not> ((player1 match = winnerId \<and> player2 match = loser) \<or>
                (player2 match = winnerId \<and> player1 match = loser))
        then s\<lparr>monitor := monitor s @ [WarnWrongMatch winnerId loser]\<rparr>
        else
          let match1 = (if player1 match = winnerId
                        then match\<lparr>p1wins := p1wins match + 1\<rparr>
                        else match\<lparr>p2wins := p2wins match + 1\<rparr>);
              winsNeeded = bestOf s div 2 + 1;
              s1 = s\<lparr>matches := (matches s)[ref := match1],
                     monitor := monitor s @ [LogBeats winnerId loser]\<rparr>
          in
          if p1wins match1 \<ge> winsNeeded \<or> p2wins match1 \<ge> winsNeeded then
            let match2 = match1
                  \<lparr>winner := Some (if p1wins match1 \<ge> winsNeeded
                                   then player1 match1 else player2 match1),
                   winnerDisplay := Some (if p1wins match1 \<ge> winsNeeded
                                          then player1Display match1
                                          else player2Display match1),
                   status := Complete\<rparr>;
                s2 = s1\<lparr>matches := (matches s1)[ref := match2],
                       playerMatches :=
                         (playerMatches s1)(player1 match2 := None, player2 match2 := None),
                       monitor := monitor s1 @ [LogMatchComplete (matchId match2)]\<rparr>
            in saveToCSV (advanceWinner s2 ref)
          else saveToCSV s1)"

section \<open>Bracket manager: freeze, resume, reset\<close>

definition freeze :: "BracketManager \<Rightarrow> error + BracketManager" where
  "freeze s =
     (if \<not> initialized s then Inl NoBracketActive
      else if frozen s then Inl AlreadyFrozen
      else let s1 = saveToCSV (s\<lparr>frozen := True\<rparr>)
           in Inr (s1\<lparr>monitor := monitor s1 @ [LogFrozen]\<rparr>))"

text \<open>
  One pass of the loop of \<^verbatim>\<open>resume\<close> over \<^verbatim>\<open>completedMatches\<close>; \<open>c\<close> is the
  reference to \<^verbatim>\<open>match\<close>, read in the state the earlier passes left.
\<close>

definition truthy :: "ID option \<Rightarrow> bool" where
  "truthy v \<longleftrightarrow> (case v of None \<Rightarrow> False | Some x \<Rightarrow> x \<noteq> [])"

definition resumeStep :: "nat \<Rightarrow> BracketManager \<Rightarrow> BracketManager" where
  "resumeStep c s =
     (let match = matches s ! c;
          nextRoundMatches = roundMatches (matches s) (roundNo match + 1)
      in
      if nextRoundMatches = [] then s
      else case nextMatchOf (matches s) c of
        None \<Rightarrow> s
      | Some n \<Rightarrow>
          let nextMatch = matches s ! n in
          if Some (player1 nextMatch) = winner match \<or> Some (player2 nextMatch) = winner match
          then s
          else if \<not> truthy (winner match) then s
          else advanceWinner (s\<lparr>monitor := monitor s @ [LogResuming (matchId match)]\<rparr>) c)"

definition resume :: "BracketManager \<Rightarrow> error + BracketManager" where
  "resume s =
     (if \<not> initialized s then Inl NoBracketActive
      else if \<not> frozen s then Inl NotFrozen
      else
        let s1 = s\<lparr>frozen := False\<rparr>;
            maxRound = (case map roundNo (matches s1) of [] \<Rightarrow> 1 | r # rs \<Rightarrow> maxOf r rs);
            completedMatches =
              filter (\<lambda>j. status (matches s1 ! j) = Complete \<and> truthy (winner (matches s1 ! j))
                           \<and> roundNo (matches s1 ! j) < maxRound)
                     [0..<length (matches s1)];
            s2 = fold resumeStep completedMatches s1;
            s3 = saveToCSV s2
        in Inr (s3\<lparr>monitor := monitor s3 @ [LogResumed]\<rparr>))"

text \<open>\<^verbatim>\<open>reset\<close>: a fresh state; the file is deleted.\<close>

definition reset :: "BracketManager \<Rightarrow> BracketManager" where
  "reset s = newBracketManager\<lparr>monitor := monitor s @ [LogReset]\<rparr>"

section \<open>Ladder store: data model\<close>

text \<open>
  \<^verbatim>\<open>src/unnamed/part_001\<close> (the ladder library). A row is the tuple
  \<^verbatim>\<open>[userid, eloRating, username, w, l, t, glickoRating, ratingDeviation, gxe,
  gamesPlayed, lastUpdate, h2hData]\<close>; the fields have the names of that comment
  (\<open>w\<close>, \<open>l\<close>, \<open>t\<close> are \<open>wCount\<close>, \<open>lCount\<close>, \<open>tCount\<close>).

  Ratings are JavaScript numbers that are not integers. They are real numbers here:
  the rounding of IEEE doubles is outside the model. The counters hold integers.

  \<^verbatim>\<open>gxe\<close> is \<^verbatim>\<open>number | string\<close>. \<^verbatim>\<open>h2hData\<close> is a JSON string; the model keeps what
  \<^verbatim>\<open>JSON.parse\<close> makes of it, a map from the opponent to the counts \<open>(w, l, t)\<close>, and
  \<open>None\<close> for a string that does not parse.
\<close>

datatype gxe_value = GxeNumber real | GxeString string

type_synonym h2h = "ID \<rightharpoonup> int \<times> int \<times> int"

record LadderRow =
  userid :: ID
  eloRating :: real
  username :: string
  wCount :: int
  lCount :: int
  tCount :: int
  glickoRating :: real
  ratingDeviation :: real
  gxe :: gxe_value
  gamesPlayed :: int
  lastUpdate :: string
  h2hData :: "h2h option"

section \<open>Ladder store: the rating formulas\<close>

text \<open>\<^verbatim>\<open>Math.round(x)\<close> is \<open>floor (x + 1/2)\<close>, which is \<open>round x\<close>.\<close>

definition calculateGXE :: "real \<Rightarrow> real \<Rightarrow> gxe_value" where
  "calculateGXE rating rd =
     (if rd > 100 then GxeString ''Unknown''
      else
        let ln10 = ln 10;
            numerator = (1500 - rating) * pi;
            denominator = sqrt (3 * ln10\<^sup>2 * rd\<^sup>2 + 2500 * (64 * pi\<^sup>2 + 147 * ln10\<^sup>2));
            exponent = numerator / denominator;
            glixare = 10000 / (1 + 10 powr exponent)
        in GxeNumber (real_of_int (round glixare) / 100))"

definition glickoG :: "real \<Rightarrow> real" where
  "glickoG deviation = 1 / sqrt (1 + 3 * ((ln 10 / 400) * deviation)\<^sup>2 / pi\<^sup>2)"

definition calculateGlicko :: "real \<Rightarrow> real \<Rightarrow> real \<Rightarrow> real \<Rightarrow> real \<Rightarrow> real \<times> real" where
  "calculateGlicko rating rd opponentRating opponentRd score =
     (let q = ln 10 / 400;
          E = 1 / (1 + 10 powr (- glickoG opponentRd * (rating - opponentRating) / 400));
          d_squared = 1 / (q\<^sup>2 * (glickoG opponentRd)\<^sup>2 * E * (1 - E));
          newRating = rating + (q / (1 / rd\<^sup>2 + 1 / d_squared)) * glickoG opponentRd * (score - E);
          newRd = sqrt (1 / (1 / rd\<^sup>2 + 1 / d_squared));
          finalRd = max 10 (min 350 newRd)
      in (real_of_int (round (newRating * 10)) / 10, real_of_int (round (finalRd * 10)) / 10))"

definition calculateElo :: "real \<Rightarrow> real \<Rightarrow> real \<Rightarrow> int \<Rightarrow> real" where
  "calculateElo oldElo score foeElo games =
     (let K0 = (if games < 20 then 32 else if games < 50 then 24 else 16) :: real;
          K1 = (if oldElo < 1100 then min (K0 + 8) 32
                else if oldElo > 1600 then max (K0 - 4) 12 else K0);
          ratingDiff = \<bar>oldElo - foeElo\<bar>;
          K = (if ratingDiff > 200 then
                 (let lowerRated = min oldElo foeElo in
                  if oldElo = lowerRated \<and> score > 0.5 then K1 * 1.1
                  else if oldElo \<noteq> lowerRated \<and> score < 0.5 then K1 * 1.05
                  else K1)
               else K1);
          E = 1 / (1 + 10 powr ((foeElo - oldElo) / 400));
          newElo = oldElo + K * (score - E)
      in max newElo 1000)"

section \<open>Ladder store: rows\<close>

text \<open>The loop of \<^verbatim>\<open>indexOfUser\<close>: the first index whose row has the identity.\<close>

fun findUser :: "LadderRow list \<Rightarrow> ID \<Rightarrow> nat option" where
  "findUser [] uid = None"
| "findUser (user # rest) uid =
     (if userid user = uid then Some 0 else map_option Suc (findUser rest uid))"

text \<open>
  \<^verbatim>\<open>indexOfUser(username, createIfNeeded)\<close>, with the ladder it leaves. \<open>now\<close> is
  \<^verbatim>\<open>new Date().toString()\<close>. The pushed row is the literal of the source:
  \<^verbatim>\<open>[userid, 1000, username, 0, 0, 0, 1500, 130, 50, 0, now, '{}']\<close>.
\<close>

definition indexOfUser ::
  "LadderRow list \<Rightarrow> string \<Rightarrow> bool \<Rightarrow> string \<Rightarrow> int \<times> LadderRow list" where
  "indexOfUser ladder name createIfNeeded now =
     (case findUser ladder (toID name) of
        Some i \<Rightarrow> (int i, ladder)
      | None \<Rightarrow>
          if createIfNeeded then
            (int (length ladder),
             ladder @ [\<lparr>userid = toID name, eloRating = 1000, username = name, wCount = 0,
                        lCount = 0, tCount = 0, glickoRating = 1500, ratingDeviation = 130,
                        gxe = GxeNumber 50, gamesPlayed = 0, lastUpdate = now,
                        h2hData = Some Map.empty\<rparr>])
          else (- 1, ladder))"

definition updateRow :: "LadderRow \<Rightarrow> real \<Rightarrow> real \<Rightarrow> real \<Rightarrow> real \<Rightarrow> string \<Rightarrow> LadderRow" where
  "updateRow row score foeElo foeGlicko foeRd now =
     (let newElo = calculateElo (eloRating row) score foeElo (gamesPlayed row);
          newGlicko = calculateGlicko (glickoRating row) (ratingDeviation row) foeGlicko foeRd score;
          games = gamesPlayed row + 1;
          newGxe = calculateGXE (fst newGlicko) (snd newGlicko);
          row1 = row\<lparr>eloRating := newElo, glickoRating := fst newGlicko,
                     ratingDeviation := snd newGlicko, gxe := newGxe, gamesPlayed := games\<rparr>;
          row2 = (if score > 0.6 then row1\<lparr>wCount := wCount row1 + 1\<rparr>
                  else if score < 0.4 then row1\<lparr>lCount := lCount row1 + 1\<rparr>
                  else row1\<lparr>tCount := tCount row1 + 1\<rparr>)
      in row2\<lparr>lastUpdate := now\<rparr>)"

datatype h2h_result = H2HWin | H2HLoss | H2HTie

definition updateH2H :: "LadderRow \<Rightarrow> ID \<Rightarrow> h2h_result \<Rightarrow> LadderRow" where
  "updateH2H playerRow opponentId result =
     (case h2hData playerRow of
        None \<Rightarrow> playerRow\<lparr>h2hData := Some Map.empty\<rparr>
      | Some table \<Rightarrow>
          let counts = (case table opponentId of None \<Rightarrow> (0, 0, 0) | Some c \<Rightarrow> c);
              counts' = (case result of
                           H2HWin \<Rightarrow> (fst counts + 1, fst (snd counts), snd (snd counts))
                         | H2HLoss \<Rightarrow> (fst counts, fst (snd counts) + 1, snd (snd counts))
                         | H2HTie \<Rightarrow> (fst counts, fst (snd counts), snd (snd counts) + 1))
          in playerRow\<lparr>h2hData := Some (table(opponentId \<mapsto> counts'))\<rparr>)"

section \<open>Ladder store: updateRating\<close>

text \<open>
  The two loops that look for the new place of a row whose rating is \<open>e\<close>:
  \<^verbatim>\<open>while (newIndex > 0 && ladder[newIndex - 1][1] <= e) newIndex--\<close> and
  \<^verbatim>\<open>while (newIndex === index || (ladder[newIndex] && ladder[newIndex][1] > e)) newIndex++\<close>.
  \<^verbatim>\<open>ladder[newIndex]\<close> is undefined from the length of the array on.
\<close>

fun scanUp :: "LadderRow list \<Rightarrow> real \<Rightarrow> nat \<Rightarrow> nat" where
  "scanUp ladder e 0 = 0"
| "scanUp ladder e (Suc k) = (if eloRating (ladder ! k) \<le> e then scanUp ladder e k else Suc k)"

function scanDown :: "LadderRow list \<Rightarrow> real \<Rightarrow> nat \<Rightarrow> nat \<Rightarrow> nat" where
  "scanDown ladder e index newIndex =
     (if newIndex = index \<or> (newIndex < length ladder \<and> eloRating (ladder ! newIndex) > e)
      then scanDown ladder e index (Suc newIndex) else newIndex)"
  by pat_completeness auto
termination
  by (relation "measure (\<lambda>(ladder, e, index, newIndex). Suc (max (length ladder) index) - newIndex)")
    auto

declare scanDown.simps [simp del]

text \<open>\<^verbatim>\<open>ladder.splice(i, 1)\<close> and \<^verbatim>\<open>ladder.splice(i, 0, row)\<close>.\<close>

definition removeAt :: "nat \<Rightarrow> 'a list \<Rightarrow> 'a list" where
  "removeAt i xs = take i xs @ drop (Suc i) xs"

definition insertAt :: "nat \<Rightarrow> 'a \<Rightarrow> 'a list \<Rightarrow> 'a list" where
  "insertAt i x xs = take i xs @ x # drop i xs"

text \<open>
  "move p1 to its new location": the ladder and the index of the other player's row
  after the move of the row at \<open>index\<close>, whose rating is \<open>newElo\<close>. The move of p2 is
  the same code without the index of another row (\<open>fst\<close> of the result).
\<close>

definition moveRow :: "LadderRow list \<Rightarrow> nat \<Rightarrow> real \<Rightarrow> nat \<Rightarrow> LadderRow list \<times> nat" where
  "moveRow ladder index newElo otherIndex =
     (let newIndex = scanDown ladder newElo index (scanUp ladder newElo index) in
      if newIndex \<noteq> index \<and> newIndex \<noteq> index + 1 then
        let row = ladder ! index;
            ladder1 = removeAt index ladder;
            newIndex1 = (if newIndex > index then newIndex - 1 else newIndex);
            otherIndex1 = (if otherIndex > index then otherIndex - 1 else otherIndex);
            ladder2 = insertAt newIndex1 row ladder1;
            otherIndex2 = (if otherIndex1 \<ge> newIndex1 then otherIndex1 + 1 else otherIndex1)
        in (ladder2, otherIndex2)
      else (ladder, otherIndex))"

text \<open>
  \<^verbatim>\<open>updateRating(p1name, p2name, p1score, room)\<close>, with the ladders enabled, in the
  order of the source: the two calls of \<^verbatim>\<open>updateRow\<close> (each with the rating of the
  foe read before either update), the two pairs of calls of \<^verbatim>\<open>updateH2H\<close>, the move
  of p1 and the move of p2.
\<close>

definition updateRows ::
  "LadderRow list \<Rightarrow> nat \<Rightarrow> nat \<Rightarrow> real \<Rightarrow> real \<Rightarrow> string \<Rightarrow> LadderRow list" where
  "updateRows ladder p1index p2index p1score p2score now =
     (let p1elo = eloRating (ladder ! p1index);
          p1glicko = glickoRating (ladder ! p1index);
          p1rd = ratingDeviation (ladder ! p1index);
          p2elo = eloRating (ladder ! p2index);
          p2glicko = glickoRating (ladder ! p2index);
          p2rd = ratingDeviation (ladder ! p2index);
          ladder1 = ladder[p1index := updateRow (ladder ! p1index) p1score p2elo p2glicko p2rd now]
      in ladder1[p2index := updateRow (ladder1 ! p2index) p2score p1elo p1glicko p1rd now])"

definition updateH2Hs ::
  "LadderRow list \<Rightarrow> nat \<Rightarrow> nat \<Rightarrow> ID \<Rightarrow> ID \<Rightarrow> real \<Rightarrow> LadderRow list" where
  "updateH2Hs ladder p1index p2index p1id p2id p1score =
     (let result1 = (if p1score > 0.6 then H2HWin else if p1score < 0.4 then H2HLoss else H2HTie);
          result2 = (if p1score > 0.6 then H2HLoss else if p1score < 0.4 then H2HWin else H2HTie);
          ladder1 = ladder[p1index := updateH2H (ladder ! p1index) p2id result1]
      in ladder1[p2index := updateH2H (ladder1 ! p2index) p1id result2])"

definition moveBoth :: "LadderRow list \<Rightarrow> nat \<Rightarrow> nat \<Rightarrow> LadderRow list" where
  "moveBoth ladder p1index p2index =
     (let p1newElo = eloRating (ladder ! p1index);
          p2newElo = eloRating (ladder ! p2index);
          moved1 = moveRow ladder p1index p1newElo p2index
      in fst (moveRow (fst moved1) (snd moved1) p2newElo 0))"

text \<open>
  The ladder \<^verbatim>\<open>updateRating\<close> leaves and the triple it returns. The messages to the
  room, the cache of the user objects and the file written by \<^verbatim>\<open>save\<close> are not part
  of the model. Both calls of \<^verbatim>\<open>indexOfUser\<close> create the row if needed, so both
  indices are positions in the ladder.
\<close>

definition updateRating ::
  "LadderRow list \<Rightarrow> string \<Rightarrow> string \<Rightarrow> real \<Rightarrow> string
     \<Rightarrow> LadderRow list \<times> (real \<times> real \<times> real)" where
  "updateRating ladder0 p1name p2name p1score0 now =
     (let p1score = (if p1score0 < 0 then 0 else p1score0);
          p2score = (if p1score0 < 0 then 0 else 1 - p1score0);
          found1 = indexOfUser ladder0 p1name True now;
          p1index = nat (fst found1);
          found2 = indexOfUser (snd found1) p2name True now;
          p2index = nat (fst found2);
          ladder1 = updateRows (snd found2) p1index p2index p1score p2score now;
          ladder2 = updateH2Hs ladder1 p1index p2index (toID p1name) (toID p2name) p1score;
          p1newElo = eloRating (ladder2 ! p1index);
          p2newElo = eloRating (ladder2 ! p2index)
      in (moveBoth ladder2 p1index p2index, (p1score, p1newElo, p2newElo)))"

text \<open>The ladder after a sequence of calls \<open>(p1name, p2name, p1score, now)\<close>.\<close>

definition ratingCall :: "LadderRow list \<Rightarrow> string \<times> string \<times> real \<times> string \<Rightarrow> LadderRow list" where
  "ratingCall ladder call =
     fst (updateRating ladder (fst call) (fst (snd call)) (fst (snd (snd call))) (snd (snd (snd call))))"

definition ratingCalls :: "(string \<times> string \<times> real \<times> string) list \<Rightarrow> LadderRow list" where
  "ratingCalls calls = foldl ratingCall [] calls"

definition sortedByElo :: "LadderRow list \<Rightarrow> bool" where
  "sortedByElo ladder \<longleftrightarrow> sorted_wrt (\<lambda>a b. eloRating a \<ge> eloRating b) ladder"

text \<open>The total of the \<open>w\<close> counters and of the \<open>l\<close> counters over the rows of a ladder.\<close>

definition sumW :: "LadderRow list \<Rightarrow> int" where
  "sumW ladder = sum_list (map wCount ladder)"

definition sumL :: "LadderRow list \<Rightarrow> int" where
  "sumL ladder = sum_list (map lCount ladder)"


section \<open>Sequences of calls\<close>

text \<open>
  A call that throws leaves the manager as the caller had it: \<^verbatim>\<open>initialize\<close>,
  \<^verbatim>\<open>freeze\<close> and \<^verbatim>\<open>resume\<close> throw before their first write.
\<close>

definition afterCall :: "BracketManager \<Rightarrow> error + BracketManager \<Rightarrow> BracketManager" where
  "afterCall s r = (case r of Inl e \<Rightarrow> s | Inr s' \<Rightarrow> s')"

datatype operation =
    Initialize string "string list" int bool "nat \<Rightarrow> nat"
  | RecordWin ID ID
  | Freeze
  | Resume

fun perform :: "BracketManager \<Rightarrow> operation \<Rightarrow> BracketManager" where
  "perform s (Initialize fmt players bo randomize rnd) =
     afterCall s (initialize s fmt players bo randomize rnd)"
| "perform s (RecordWin winnerId loser) = recordWin s winnerId loser"
| "perform s Freeze = afterCall s (freeze s)"
| "perform s Resume = afterCall s (resume s)"

text \<open>The manager after a sequence of calls on a new manager.\<close>

definition run :: "operation list \<Rightarrow> BracketManager" where
  "run ops = foldl perform newBracketManager ops"


section \<open>Invariants of the bracket\<close>

definition plays :: "ID \<Rightarrow> BracketMatch \<Rightarrow> bool" where
  "plays a m \<longleftrightarrow> player1 m = a \<or> player2 m = a"

text \<open>\<^verbatim>\<open>winsNeeded = Math.floor(this.state.bestOf / 2) + 1\<close>.\<close>

definition winsNeeded :: "'a BracketState_scheme \<Rightarrow> int" where
  "winsNeeded s = bestOf s div 2 + 1"

text \<open>
  Every entry of \<open>playerMatches\<close> refers to an active match of \<open>matches\<close> in which the
  key is a player.
\<close>

definition refsOk :: "BracketMatch list \<Rightarrow> (ID \<rightharpoonup> nat) \<Rightarrow> bool" where
  "refsOk ms pm \<longleftrightarrow>
     (\<forall>a ref. pm a = Some ref \<longrightarrow> ref < length ms \<and> status (ms ! ref) = Active \<and> plays a (ms ! ref))"

text \<open>
  Rounds count from 1, scores are not negative, a series that is not complete has
  both scores below the threshold (when that is positive), and a match of a later
  round that is active or complete has both its slots filled.
\<close>

definition matchOk :: "int \<Rightarrow> BracketMatch \<Rightarrow> bool" where
  "matchOk needed m \<longleftrightarrow>
     1 \<le> roundNo m \<and> 0 \<le> p1wins m \<and> 0 \<le> p2wins m
   \<and> (status m \<noteq> Complete \<and> 0 < needed \<longrightarrow> p1wins m < needed \<and> p2wins m < needed)
   \<and> (2 \<le> roundNo m \<and> (status m = Active \<or> status m = Complete)
        \<longrightarrow> player1 m \<noteq> [] \<and> player2 m \<noteq> [])"

definition wellFormed :: "'a BracketState_scheme \<Rightarrow> bool" where
  "wellFormed s \<longleftrightarrow>
     refsOk (matches s) (playerMatches s) \<and> (\<forall>m \<in> set (matches s). matchOk (winsNeeded s) m)"

text \<open>The match \<open>recordWin\<close> writes: with the win counted, and then completed.\<close>

definition countedWin :: "BracketMatch \<Rightarrow> ID \<Rightarrow> BracketMatch" where
  "countedWin m winnerId =
     (if player1 m = winnerId then m\<lparr>p1wins := p1wins m + 1\<rparr> else m\<lparr>p2wins := p2wins m + 1\<rparr>)"

definition completedMatch :: "int \<Rightarrow> BracketMatch \<Rightarrow> BracketMatch" where
  "completedMatch needed m =
     m\<lparr>winner := Some (if p1wins m \<ge> needed then player1 m else player2 m),
       winnerDisplay := Some (if p1wins m \<ge> needed then player1Display m else player2Display m),
       status := Complete\<rparr>"

text \<open>
  The placeholder matches that \<^verbatim>\<open>initialize\<close> pushes for the rounds \<open>rs\<close>, the first
  with the identifier \<open>mid\<close>, in a bracket of \<open>t\<close> rounds.
\<close>

fun placeholders :: "nat \<Rightarrow> int \<Rightarrow> nat list \<Rightarrow> BracketMatch list" where
  "placeholders t mid [] = []"
| "placeholders t mid (r # rs) =
     map (\<lambda>j. placeholderMatch (int r) (mid + int j)) [0..<2 ^ (t - r)]
     @ placeholders t (mid + 2 ^ (t - r)) rs"

text \<open>
  The invariants of a bracket whose players have pairwise different identities.
  Both players of an active match are mapped to it; no identity is in two matches of
  round 1; a player in a slot of a later round is the winner of a completed match
  that feeds this one; the winner of a completed match is one of its players.
\<close>

definition activeRefs :: "BracketMatch list \<Rightarrow> (ID \<rightharpoonup> nat) \<Rightarrow> bool" where
  "activeRefs ms pm \<longleftrightarrow>
     (\<forall>i < length ms. status (ms ! i) = Active
        \<longrightarrow> pm (player1 (ms ! i)) = Some i \<and> pm (player2 (ms ! i)) = Some i)"

definition firstRoundDistinct :: "BracketMatch list \<Rightarrow> bool" where
  "firstRoundDistinct ms \<longleftrightarrow>
     (\<forall>a i j. i < length ms \<and> j < length ms \<and> roundNo (ms ! i) = 1 \<and> roundNo (ms ! j) = 1
        \<and> plays a (ms ! i) \<and> plays a (ms ! j) \<longrightarrow> i = j)"

definition provenance :: "BracketMatch list \<Rightarrow> bool" where
  "provenance ms \<longleftrightarrow>
     (\<forall>n < length ms. roundNo (ms ! n) \<noteq> 1 \<longrightarrow>
        (\<forall>a. a \<noteq> [] \<and> plays a (ms ! n) \<longrightarrow>
           (\<exists>c < length ms. nextMatchOf ms c = Some n \<and> status (ms ! c) = Complete
                \<and> winner (ms ! c) = Some a)))"

definition winnersPlay :: "BracketMatch list \<Rightarrow> bool" where
  "winnersPlay ms \<longleftrightarrow>
     (\<forall>c < length ms. status (ms ! c) = Complete
        \<longrightarrow> (\<exists>a. winner (ms ! c) = Some a \<and> plays a (ms ! c)))"

definition tidy :: "'a BracketState_scheme \<Rightarrow> bool" where
  "tidy s \<longleftrightarrow>
     wellFormed s \<and> activeRefs (matches s) (playerMatches s) \<and> firstRoundDistinct (matches s)
   \<and> provenance (matches s) \<and> winnersPlay (matches s)"

text \<open>A call of \<^verbatim>\<open>initialize\<close> whose players have pairwise different identities.\<close>

definition distinctPlayers :: "operation \<Rightarrow> bool" where
  "distinctPlayers op \<longleftrightarrow>
     (case op of Initialize fmt players bo randomize rnd \<Rightarrow> distinct (map toID players)
      | _ \<Rightarrow> True)"


section \<open>Winners that wait for their place\<close>

text \<open>The last round of the bracket, as \<^verbatim>\<open>resume\<close> computes \<^verbatim>\<open>maxRound\<close>.\<close>

definition maxRound :: "BracketMatch list \<Rightarrow> int" where
  "maxRound ms = (case map roundNo ms of [] \<Rightarrow> 1 | r # rs \<Rightarrow> maxOf r rs)"








section \<open>Example states\<close>

text \<open>
  Four players, best of 3, frozen; Alice has won her series against Dave, and the
  freeze is lifted (the first step of \<^verbatim>\<open>resume\<close>): her place in the final is still
  to be filled.
\<close>

definition unplacedExample :: BracketManager where
  "unplacedExample =
     (run [Initialize ''gen1ou'' [''Alice'', ''Bob'', ''Carol'', ''Dave''] 3 False id, Freeze,
           RecordWin ''alice'' ''dave'', RecordWin ''alice'' ''dave''])\<lparr>frozen := False\<rparr>"

text \<open>A ladder row with the given identity and rating, and no game played.\<close>

definition exampleRow :: "ID \<Rightarrow> real \<Rightarrow> LadderRow" where
  "exampleRow uid e =
     \<lparr>userid = uid, eloRating = e, username = uid, wCount = 0, lCount = 0, tCount = 0,
      glickoRating = 1500, ratingDeviation = 130, gxe = GxeString ''Unknown'',
      gamesPlayed = 0, lastUpdate = [], h2hData = Some Map.empty\<rparr>"


text \<open>Four players, best of 3, just initialized.\<close>

definition startedExample :: BracketManager where
  "startedExample = run [Initialize ''gen1ou'' [''Alice'', ''Bob'', ''Carol'', ''Dave''] 3 False id]"

text \<open>
  Four players of whom two have the same identity \<^verbatim>\<open>a\<close>: \<^verbatim>\<open>initialize\<close> does not look at
  identities, and the command \<^verbatim>\<open>createbracketshuffle\<close> does not either.
\<close>

definition duplicateExample :: BracketManager where
  "duplicateExample = run [Initialize ''gen1ou'' [''A'', ''B'', ''a'', ''C''] 3 False id]"



section \<open>Seeding: the pairings of the first round\<close>

lemma length_interleave: "length (interleave n xs) = 2 * length xs"
  by (induction xs) auto

lemma interleave_nth_even: "i < length xs \<Longrightarrow> interleave n xs ! (2 * i) = xs ! i"
proof (induction xs arbitrary: i)
  case Nil then show ?case by simp
next
  case (Cons x xs)
  then show ?case by (cases i) auto
qed

lemma interleave_nth_odd: "i < length xs \<Longrightarrow> interleave n xs ! (2 * i + 1) = n + 1 - xs ! i"
proof (induction xs arbitrary: i)
  case Nil then show ?case by simp
next
  case (Cons x xs)
  then show ?case by (cases i) auto
qed

lemma mset_interleave:
  "mset (interleave n xs) = mset xs + mset (map (\<lambda>s. n + 1 - s) xs)"
  by (induction xs) auto

lemma mirror_image: "(\<lambda>s. 2 * m + 1 - s) ` {1..<Suc m} = {Suc m..<Suc (2 * m)}"
proof (rule set_eqI, rule iffI)
  fix x assume "x \<in> (\<lambda>s. 2 * m + 1 - s) ` {1..<Suc m}"
  then show "x \<in> {Suc m..<Suc (2 * m)}" by auto
next
  fix x assume a: "x \<in> {Suc m..<Suc (2 * m)}"
  then have "2 * m + 1 - x \<in> {1..<Suc m}" and "x = 2 * m + 1 - (2 * m + 1 - x)" by auto
  then show "x \<in> (\<lambda>s. 2 * m + 1 - s) ` {1..<Suc m}" by (rule_tac image_eqI)
qed

lemma mset_mirror:
  "mset (map (\<lambda>s. 2 * m + 1 - s) [1..<Suc m]) = mset [Suc m..<Suc (2 * m)]"
proof -
  have inj: "inj_on (\<lambda>s. 2 * m + 1 - s) {1..<Suc m}"
    by (rule inj_onI) auto
  have "mset (map (\<lambda>s. 2 * m + 1 - s) [1..<Suc m]) = image_mset (\<lambda>s. 2 * m + 1 - s) (mset_set {1..<Suc m})"
    by (simp only: mset_map mset_upt)
  also have "\<dots> = mset_set ((\<lambda>s. 2 * m + 1 - s) ` {1..<Suc m})"
    using inj by (simp add: image_mset_mset_set)
  also have "\<dots> = mset [Suc m..<Suc (2 * m)]"
    by (simp only: mirror_image mset_upt)
  finally show ?thesis .
qed

lemma mset_upt_split: "mset [1..<Suc m] + mset [Suc m..<Suc (2 * m)] = mset [1..<Suc (2 * m)]"
proof -
  have e: "Suc (2 * m) = Suc m + m" by simp
  have "[1..<Suc m + m] = [1..<Suc m] @ [Suc m..<Suc m + m]"
    by (rule upt_add_eq_append) simp
  then show ?thesis unfolding e by (simp only: mset_append)
qed

lemma seeds_pow2:
  "\<exists>seeds. buildBracketSeeds (2 ^ Suc k) = Some seeds \<and> length seeds = 2 ^ Suc k
      \<and> mset seeds = mset [1..<Suc (2 ^ Suc k)] \<and> seeds ! 0 = 1 \<and> seeds ! (2 ^ k) = 2"
proof (induction k)
  case 0
  have "[1..<Suc (2 ^ Suc 0)] = [1, 2::nat]" by (simp add: upt_rec)
  then have "mset [1, 2::nat] = mset [1..<Suc (2 ^ Suc 0)]" by (simp only:)
  then show ?case by (simp add: buildBracketSeeds.simps del: mset_upt)
next
  case (Suc k)
  then obtain prev where p: "buildBracketSeeds (2 ^ Suc k) = Some prev" "length prev = 2 ^ Suc k"
    "mset prev = mset [1..<Suc (2 ^ Suc k)]" "prev ! 0 = 1" "prev ! (2 ^ k) = 2" by blast
  let ?n = "2 ^ Suc (Suc k) :: nat"
  have n2: "?n \<noteq> 2" "\<not> ?n < 2" "even ?n" "?n div 2 = 2 ^ Suc k" by auto
  have b: "buildBracketSeeds ?n = Some (interleave ?n prev)"
    by (subst buildBracketSeeds.simps) (simp only: n2 p(1) if_False simp_thms option.map)
  have "mset (map (\<lambda>s. ?n + 1 - s) prev) = image_mset (\<lambda>s. ?n + 1 - s) (mset prev)" by simp
  also have "\<dots> = mset (map (\<lambda>s. 2 * 2 ^ Suc k + 1 - s) [1..<Suc (2 ^ Suc k)])"
    by (simp only: p(3)) simp
  also have "\<dots> = mset [Suc (2 ^ Suc k)..<Suc (2 * 2 ^ Suc k)]" by (rule mset_mirror)
  finally have m: "mset (interleave ?n prev) = mset [1..<Suc ?n]"
    using mset_upt_split[of "2 ^ Suc k"] by (simp only: mset_interleave p(3)) simp
  have z: "interleave ?n prev ! (2 * 0) = prev ! 0"
    by (rule interleave_nth_even) (simp add: p(2))
  have t: "interleave ?n prev ! (2 * 2 ^ k) = prev ! (2 ^ k)"
    by (rule interleave_nth_even) (simp add: p(2))
  show ?case
    using b m z t p(2,4,5) by (simp add: length_interleave)
qed


lemma length_pairUp: "length (pairUp seeds n) = n"
  by (induction n) auto

lemma pairUp_nth: "i < n \<Longrightarrow> pairUp seeds n ! i = (seeds ! (2 * i), seeds ! (2 * i + 1))"
proof (induction n)
  case 0 then show ?case by simp
next
  case (Suc n)
  show ?case
  proof (cases "i = n")
    case True
    then show ?thesis by (simp add: nth_append length_pairUp mult.commute)
  next
    case False
    with Suc show ?thesis by (simp add: nth_append length_pairUp)
  qed
qed

lemma concat_pairUp:
  "2 * n \<le> length seeds \<Longrightarrow> concat (map (\<lambda>(a, b). [a, b]) (pairUp seeds n)) = take (2 * n) seeds"
proof (induction n)
  case 0 then show ?case by simp
next
  case (Suc n)
  have a: "take (Suc (2 * n)) seeds = take (2 * n) seeds @ [seeds ! (2 * n)]"
    using Suc.prems by (intro take_Suc_conv_app_nth) simp
  have b: "take (Suc (Suc (2 * n))) seeds = take (Suc (2 * n)) seeds @ [seeds ! Suc (2 * n)]"
    using Suc.prems by (intro take_Suc_conv_app_nth) simp
  have "concat (map (\<lambda>(a, b). [a, b]) (pairUp seeds n)) = take (2 * n) seeds"
    using Suc by simp
  then show ?case using a b by (simp add: mult.commute)
qed

lemma seeds_in_range:
  assumes "buildBracketSeeds (2 ^ Suc k) = Some seeds"
  shows "set seeds = {1..2 ^ Suc k}"
proof -
  obtain seeds' where s: "buildBracketSeeds (2 ^ Suc k) = Some seeds'"
    "mset seeds' = mset [1..<Suc (2 ^ Suc k)]"
    using seeds_pow2[of k] by auto
  have "set seeds' = set [1..<Suc (2 ^ Suc k)]" using s(2) by (rule mset_eq_setD)
  then have "set seeds' = {1..2 ^ Suc k}"
    by (simp only: set_upt atLeastLessThanSuc_atLeastAtMost)
  then show ?thesis using s(1) assms by simp
qed

lemma pairings_pow2:
  assumes "1 \<le> k" and "N = 2 ^ k"
  shows "\<exists>seeds pairings.
           buildBracketSeeds N = Some seeds \<and> generateStandardPairings N = Some pairings
         \<and> length pairings = N div 2
         \<and> (\<forall>i < N div 2. pairings ! i = (seeds ! (2 * i), seeds ! (2 * i + 1)))
         \<and> mset (concat (map (\<lambda>(a, b). [a, b]) pairings)) = mset [1..<Suc N]
         \<and> 1 \<in> set (take (N div 2) seeds) \<and> 2 \<notin> set (take (N div 2) seeds)
         \<and> 2 \<in> set (drop (N div 2) seeds) \<and> 1 \<notin> set (drop (N div 2) seeds)"
proof -
  obtain j where k: "k = Suc j" using assms(1) by (cases k) auto
  have N: "N = 2 ^ Suc j" "N div 2 = 2 ^ j" using assms(2) k by auto
  obtain seeds where s: "buildBracketSeeds N = Some seeds" "length seeds = N"
    "mset seeds = mset [1..<Suc N]" "seeds ! 0 = 1" "seeds ! (2 ^ j) = 2"
    using seeds_pow2[of j] N(1) by auto
  let ?ps = "pairUp seeds (N div 2)"
  have g: "generateStandardPairings N = Some ?ps"
    by (simp add: generateStandardPairings_def s(1))
  have len2: "2 * (N div 2) = N" using N by simp
  have c: "concat (map (\<lambda>(a, b). [a, b]) ?ps) = seeds"
    using concat_pairUp[of "N div 2" seeds] s(2) len2 by simp
  have d: "distinct seeds"
    using s(3) mset_eq_imp_distinct_iff[of seeds "[1..<Suc N]"] by simp
  have h: "0 < N div 2" "N div 2 < N" using N by auto
  have "take (N div 2) seeds ! 0 = seeds ! 0" using h by simp
  moreover have "0 < length (take (N div 2) seeds)" using h s(2) by simp
  ultimately have t1: "1 \<in> set (take (N div 2) seeds)"
    using s(4) nth_mem[of 0 "take (N div 2) seeds"] by simp
  have "drop (N div 2) seeds ! 0 = seeds ! (N div 2)" using h s(2) by simp
  moreover have "0 < length (drop (N div 2) seeds)" using h s(2) by simp
  ultimately have t2: "2 \<in> set (drop (N div 2) seeds)"
    using s(5) N(2) nth_mem[of 0 "drop (N div 2) seeds"] by simp
  have disj: "set (take (N div 2) seeds) \<inter> set (drop (N div 2) seeds) = {}"
    using d by (simp add: set_take_disj_set_drop_if_distinct)
  have t3: "2 \<notin> set (take (N div 2) seeds)" "1 \<notin> set (drop (N div 2) seeds)"
    using disj t1 t2 by blast+
  show ?thesis
    using s(1) g c s(3) t1 t2 t3 by (auto simp: length_pairUp pairUp_nth simp del: mset_upt)
qed

lemma pairings_8: "generateStandardPairings 8 = Some [(1, 8), (4, 5), (2, 7), (3, 6)]"
  by code_simp

text \<open>
  C8. For \<open>N = 2^k\<close> players, \<open>k \<ge> 1\<close>: \<^verbatim>\<open>generateStandardPairings\<close> returns, match
  \<open>i\<close> pairs \<open>seeds[2i]\<close> with \<open>seeds[2i+1]\<close> of the seed order that
  \<^verbatim>\<open>buildBracketSeeds\<close> builds, the seeds used are \<open>1..N\<close>, each once, seed 1 is in the
  first half of the seed order and seed 2 in the second half (and in no other), and
  the pairs for 8 players are (1,8), (4,5), (2,7), (3,6).
\<close>

theorem standard_pairings:
  "(1 \<le> k \<and> N = 2 ^ k \<longrightarrow>
      (\<exists>seeds pairings.
           buildBracketSeeds N = Some seeds \<and> generateStandardPairings N = Some pairings
         \<and> length pairings = N div 2
         \<and> (\<forall>i < N div 2. pairings ! i = (seeds ! (2 * i), seeds ! (2 * i + 1)))
         \<and> mset (concat (map (\<lambda>(a, b). [a, b]) pairings)) = mset [1..<Suc N]
         \<and> 1 \<in> set (take (N div 2) seeds) \<and> 2 \<notin> set (take (N div 2) seeds)
         \<and> 2 \<in> set (drop (N div 2) seeds) \<and> 1 \<notin> set (drop (N div 2) seeds)))
   \<and> generateStandardPairings 8 = Some [(1, 8), (4, 5), (2, 7), (3, 6)]"
  using pairings_pow2[of k N] pairings_8 by blast

theorem standard_pairings_witness:
  "(1::nat) \<le> 3 \<and> (8::nat) = 2 ^ 3 \<and>
   (\<exists>seeds pairings.
           buildBracketSeeds 8 = Some seeds \<and> generateStandardPairings 8 = Some pairings
         \<and> length pairings = 4
         \<and> mset (concat (map (\<lambda>(a, b). [a, b]) pairings)) = mset [1..<Suc 8]
         \<and> 1 \<in> set (take 4 seeds) \<and> 2 \<notin> set (take 4 seeds)
         \<and> 2 \<in> set (drop 4 seeds) \<and> 1 \<notin> set (drop 4 seeds))"
proof -
  have h: "(1::nat) \<le> 3 \<and> (8::nat) = 2 ^ 3" by simp
  have d: "(8::nat) div 2 = 4" by simp
  from standard_pairings[of 3 8] h show ?thesis
    unfolding d by blast
qed

section \<open>initialize: when it throws\<close>

lemma isPowerOfTwo_iff: "isPowerOfTwo n \<longleftrightarrow> (\<exists>k. n = 2 ^ k)"
proof (induction n rule: less_induct)
  case (less n)
  show ?case
  proof (cases "n = 0")
    case True
    then show ?thesis by (simp add: isPowerOfTwo_def)
  next
    case pos: False
    show ?thesis
    proof (cases "even n")
      case True
      then obtain m where m: "n = 2 * m" by (elim evenE)
      with pos have mpos: "m > 0" by simp
      have d: "(n - Suc 0) div 2 = m - Suc 0" "odd (n - Suc 0)" "n div 2 = m"
        using m mpos by auto
      have "n AND (n - 1) = 2 * (m AND (m - 1))"
        by (subst and_rec) (simp add: d True)
      then have "isPowerOfTwo n \<longleftrightarrow> isPowerOfTwo m"
        using pos mpos by (simp add: isPowerOfTwo_def)
      also have "\<dots> \<longleftrightarrow> (\<exists>k. m = 2 ^ k)" using less[of m] m mpos by simp
      also have "\<dots> \<longleftrightarrow> (\<exists>k. n = 2 ^ k)"
      proof
        assume "\<exists>k. m = 2 ^ k"
        then obtain k where "m = 2 ^ k" ..
        then have "n = 2 ^ Suc k" using m by simp
        then show "\<exists>k. n = 2 ^ k" ..
      next
        assume "\<exists>k. n = 2 ^ k"
        then obtain k where k: "n = 2 ^ k" ..
        with True obtain j where "k = Suc j" by (cases k) auto
        with k m have "m = 2 ^ j" by simp
        then show "\<exists>k. m = 2 ^ k" ..
      qed
      finally show ?thesis .
    next
      case False
      then obtain m where m: "n = 2 * m + 1" by (elim oddE)
      have d: "(n - Suc 0) div 2 = m" "even (n - Suc 0)" "n div 2 = m" using m by auto
      have "n AND (n - 1) = 2 * m"
        by (subst and_rec) (simp add: d False)
      then have a: "isPowerOfTwo n \<longleftrightarrow> m = 0" using pos by (simp add: isPowerOfTwo_def)
      have "(\<exists>k. n = 2 ^ k) \<longleftrightarrow> m = 0"
      proof
        assume "\<exists>k. n = 2 ^ k"
        then obtain k where k: "n = 2 ^ k" ..
        with False have "k = 0" by (cases k) auto
        with k m show "m = 0" by simp
      next
        assume "m = 0"
        with m have "n = 2 ^ 0" by simp
        then show "\<exists>k. n = 2 ^ k" ..
      qed
      with a show ?thesis by simp
    qed
  qed
qed



lemma fold_pushFirstRound_fields:
  "format (fold (pushFirstRound sp ps) xs s) = format s"
  "participants (fold (pushFirstRound sp ps) xs s) = participants s"
  "bestOf (fold (pushFirstRound sp ps) xs s) = bestOf s"
  "currentRound (fold (pushFirstRound sp ps) xs s) = currentRound s"
  "displayNames (fold (pushFirstRound sp ps) xs s) = displayNames s"
  "initialized (fold (pushFirstRound sp ps) xs s) = initialized s"
  "frozen (fold (pushFirstRound sp ps) xs s) = frozen s"
  "csvFile (fold (pushFirstRound sp ps) xs s) = csvFile s"
  "monitor (fold (pushFirstRound sp ps) xs s) = monitor s"
  by (induction xs arbitrary: s; simp add: pushFirstRound_def Let_def)+





section \<open>The bracket is well formed after every call\<close>

lemma roundMatches_set: "set (roundMatches ms r) = {j. j < length ms \<and> roundNo (ms ! j) = r}"
  by (auto simp: roundMatches_def)

lemma elemAt_Some: "elemAt xs k = Some x \<Longrightarrow> x \<in> set xs"
  by (auto simp: elemAt_def split: if_splits)

lemma nextMatchOf_Some:
  assumes "nextMatchOf ms c = Some n"
  shows "n < length ms" "roundNo (ms ! n) = roundNo (ms ! c) + 1"
proof -
  have "n \<in> set (roundMatches ms (roundNo (ms ! c) + 1))"
    using assms by (auto simp: nextMatchOf_def Let_def split: list.splits dest: elemAt_Some)
  then show "n < length ms" "roundNo (ms ! n) = roundNo (ms ! c) + 1"
    by (simp_all add: roundMatches_set)
qed

lemma startIfReady_frame:
  "bestOf (startIfReady s n r p) = bestOf s"
  "format (startIfReady s n r p) = format s"
  "participants (startIfReady s n r p) = participants s"
  "displayNames (startIfReady s n r p) = displayNames s"
  "initialized (startIfReady s n r p) = initialized s"
  "frozen (startIfReady s n r p) = frozen s"
  "csvFile (startIfReady s n r p) = csvFile s"
  "length (matches (startIfReady s n r p)) = length (matches s)"
  by (simp_all add: startIfReady_def)

lemma advanceWinner_frame:
  "bestOf (advanceWinner s c) = bestOf s"
  "format (advanceWinner s c) = format s"
  "participants (advanceWinner s c) = participants s"
  "displayNames (advanceWinner s c) = displayNames s"
  "initialized (advanceWinner s c) = initialized s"
  "frozen (advanceWinner s c) = frozen s"
  "csvFile (advanceWinner s c) = csvFile s"
  "length (matches (advanceWinner s c)) = length (matches s)"
  by (simp_all add: advanceWinner_def Let_def startIfReady_frame split: option.splits)

text \<open>What a call of \<open>advanceWinner\<close> can do to the matches and the references.\<close>

lemma advanceWinner_cases:
  obtains
    (same) "matches (advanceWinner s c) = matches s"
      "playerMatches (advanceWinner s c) = playerMatches s"
      "currentRound (advanceWinner s c) = currentRound s"
  | (placed) w n placed where
      "winner (matches s ! c) = Some w" "\<not> frozen s" "nextMatchOf (matches s) c = Some n"
      "(player1 (matches s ! n) = []
          \<and> placed = (matches s ! n)\<lparr>player1 := w, player1Display := displayOf s w\<rparr>)
       \<or> (player1 (matches s ! n) \<noteq> [] \<and> player2 (matches s ! n) = []
          \<and> placed = (matches s ! n)\<lparr>player2 := w, player2Display := displayOf s w\<rparr>)"
      "advanceWinner s c =
         startIfReady
           (s\<lparr>monitor := monitor s @ [LogAdvancing (matchId (matches s ! c)) (matchId (matches s ! n))]\<rparr>)
           n (roundNo (matches s ! c) + 1) placed"
proof (cases "winner (matches s ! c)")
  case None
  then show ?thesis using same by (simp add: advanceWinner_def)
next
  case (Some w)
  show ?thesis
  proof (cases "roundMatches (matches s) (roundNo (matches s ! c) + 1) = [] \<or> frozen s")
    case True
    then show ?thesis using same Some by (auto simp: advanceWinner_def Let_def)
  next
    case nf: False
    show ?thesis
    proof (cases "nextMatchOf (matches s) c")
      case None
      then show ?thesis using same Some nf by (simp add: advanceWinner_def Let_def)
    next
      case n: (Some n)
      show ?thesis
      proof (cases "player1 (matches s ! n) = []")
        case True
        then show ?thesis
          using placed[of w n "(matches s ! n)\<lparr>player1 := w, player1Display := displayOf s w\<rparr>"]
            Some nf n by (simp add: advanceWinner_def Let_def)
      next
        case p1: False
        show ?thesis
        proof (cases "player2 (matches s ! n) = []")
          case True
          then show ?thesis
            using placed[of w n "(matches s ! n)\<lparr>player2 := w, player2Display := displayOf s w\<rparr>"]
              Some nf n p1 by (simp add: advanceWinner_def Let_def)
        next
          case False
          then show ?thesis using same Some nf n p1 by (simp add: advanceWinner_def Let_def)
        qed
      qed
    qed
  qed
qed

lemma wellFormed_cong:
  assumes "matches s' = matches s" "playerMatches s' = playerMatches s" "bestOf s' = bestOf s"
  shows "wellFormed s' = wellFormed s"
  using assms by (simp add: wellFormed_def winsNeeded_def)

lemma refsOk_not_active:
  assumes "refsOk ms pm" "status (ms ! n) \<noteq> Active" "pm a = Some ref"
  shows "ref \<noteq> n"
  using assms by (auto simp: refsOk_def)

lemma startIfReady_wellFormed:
  assumes wf: "wellFormed s" and n: "n < length (matches s)"
    and st: "status (matches s ! n) \<noteq> Active" "status (matches s ! n) \<noteq> Complete"
    and same: "roundNo placed = roundNo (matches s ! n)" "p1wins placed = p1wins (matches s ! n)"
      "p2wins placed = p2wins (matches s ! n)"
  shows "wellFormed (startIfReady s n r placed)"
proof -
  let ?N = "matches s ! n"
  have refs: "refsOk (matches s) (playerMatches s)" and ok: "\<forall>m \<in> set (matches s). matchOk (winsNeeded s) m"
    using wf by (simp_all add: wellFormed_def)
  have okN: "matchOk (winsNeeded s) ?N" using ok n by simp
  have okA: "player1 placed \<noteq> [] \<Longrightarrow> player2 placed \<noteq> [] \<Longrightarrow> matchOk (winsNeeded s) (placed\<lparr>status := Active\<rparr>)"
    using okN st same by (simp add: matchOk_def)
  have okW: "matchOk (winsNeeded s) (placed\<lparr>status := Waiting\<rparr>)"
    using okN st same by (simp add: matchOk_def)
  show ?thesis
  proof (cases "player1 placed \<noteq> [] \<and> player2 placed \<noteq> []")
    case True
    let ?ms = "(matches s)[n := placed\<lparr>status := Active\<rparr>]"
    let ?pm = "(playerMatches s)(player1 placed \<mapsto> n, player2 placed \<mapsto> n)"
    have "\<forall>m \<in> set ?ms. matchOk (winsNeeded s) m"
      using ok okA True by (auto dest!: set_update_subset_insert[THEN subsetD])
    moreover have "refsOk ?ms ?pm"
      unfolding refsOk_def
    proof (intro allI impI)
      fix a ref assume a: "?pm a = Some ref"
      show "ref < length ?ms \<and> status (?ms ! ref) = Active \<and> plays a (?ms ! ref)"
      proof (cases "a = player1 placed \<or> a = player2 placed")
        case True
        then have "ref = n" using a by (auto split: if_splits)
        then show ?thesis using n True by (auto simp: plays_def)
      next
        case False
        then have p: "playerMatches s a = Some ref" using a by (auto split: if_splits)
        then have "ref \<noteq> n" using refsOk_not_active[OF refs st(1)] by blast
        then show ?thesis using refs p by (simp add: refsOk_def)
      qed
    qed
    ultimately show ?thesis using True
      by (simp add: wellFormed_def startIfReady_def winsNeeded_def)
  next
    case False
    let ?ms = "(matches s)[n := placed\<lparr>status := Waiting\<rparr>]"
    have "\<forall>m \<in> set ?ms. matchOk (winsNeeded s) m"
      using ok okW by (auto dest!: set_update_subset_insert[THEN subsetD])
    moreover have "refsOk ?ms (playerMatches s)"
      unfolding refsOk_def
    proof (intro allI impI)
      fix a ref assume p: "playerMatches s a = Some ref"
      then have "ref \<noteq> n" using refsOk_not_active[OF refs st(1)] by blast
      then show "ref < length ?ms \<and> status (?ms ! ref) = Active \<and> plays a (?ms ! ref)"
        using refs p by (simp add: refsOk_def)
    qed
    ultimately show ?thesis using False
      by (auto simp: wellFormed_def startIfReady_def winsNeeded_def)
  qed
qed

lemma advanceWinner_wellFormed:
  assumes wf: "wellFormed s" and c: "c < length (matches s)"
  shows "wellFormed (advanceWinner s c)"
proof (cases rule: advanceWinner_cases[of s c])
  case same
  then show ?thesis using wf wellFormed_cong[of "advanceWinner s c" s]
    by (simp add: advanceWinner_frame)
next
  case (placed w n placed)
  let ?s1 = "s\<lparr>monitor := monitor s @ [LogAdvancing (matchId (matches s ! c)) (matchId (matches s ! n))]\<rparr>"
  have wf1: "wellFormed ?s1" using wf by (simp add: wellFormed_def winsNeeded_def)
  have n: "n < length (matches s)" "roundNo (matches s ! n) = roundNo (matches s ! c) + 1"
    using nextMatchOf_Some[OF placed(3)] by simp_all
  have ok: "\<forall>m \<in> set (matches s). matchOk (winsNeeded s) m" using wf by (simp add: wellFormed_def)
  have "1 \<le> roundNo (matches s ! c)" using ok c by (simp add: matchOk_def)
  then have r2: "2 \<le> roundNo (matches s ! n)" using n(2) by simp
  have okN: "matchOk (winsNeeded s) (matches s ! n)" using ok n(1) by simp
  have empty: "player1 (matches s ! n) = [] \<or> player2 (matches s ! n) = []"
    using placed(4) by blast
  then have st: "status (matches s ! n) \<noteq> Active" "status (matches s ! n) \<noteq> Complete"
    using okN r2 by (auto simp: matchOk_def)
  have same: "roundNo placed = roundNo (matches s ! n)" "p1wins placed = p1wins (matches s ! n)"
      "p2wins placed = p2wins (matches s ! n)"
    using placed(4) by auto
  show ?thesis
    unfolding placed(5)
    using startIfReady_wellFormed[of ?s1 n placed] wf1 n(1) st same by simp
qed


lemma saveToCSV_frame:
  "matches (saveToCSV s) = matches s" "playerMatches (saveToCSV s) = playerMatches s"
  "bestOf (saveToCSV s) = bestOf s" "format (saveToCSV s) = format s"
  "participants (saveToCSV s) = participants s" "displayNames (saveToCSV s) = displayNames s"
  "initialized (saveToCSV s) = initialized s" "frozen (saveToCSV s) = frozen s"
  "currentRound (saveToCSV s) = currentRound s" "monitor (saveToCSV s) = monitor s"
  by (simp_all add: saveToCSV_def)

lemma saveToCSV_wellFormed: "wellFormed (saveToCSV s) = wellFormed s"
  by (rule wellFormed_cong) (simp_all add: saveToCSV_frame)

text \<open>The three outcomes of \<open>recordWin\<close>.\<close>

lemma recordWin_cases:
  obtains
    (ignored) "matches (recordWin s winnerId loser) = matches s"
      "playerMatches (recordWin s winnerId loser) = playerMatches s"
      "currentRound (recordWin s winnerId loser) = currentRound s"
      "\<forall>ref. playerMatches s winnerId = Some ref \<longrightarrow>
         \<not> ((player1 (matches s ! ref) = winnerId \<and> player2 (matches s ! ref) = loser) \<or>
            (player2 (matches s ! ref) = winnerId \<and> player1 (matches s ! ref) = loser))"
  | (counted) ref where
      "playerMatches s winnerId = Some ref"
      "(player1 (matches s ! ref) = winnerId \<and> player2 (matches s ! ref) = loser) \<or>
       (player2 (matches s ! ref) = winnerId \<and> player1 (matches s ! ref) = loser)"
      "p1wins (countedWin (matches s ! ref) winnerId) < winsNeeded s"
      "p2wins (countedWin (matches s ! ref) winnerId) < winsNeeded s"
      "recordWin s winnerId loser =
         saveToCSV (s\<lparr>matches := (matches s)[ref := countedWin (matches s ! ref) winnerId],
                      monitor := monitor s @ [LogBeats winnerId loser]\<rparr>)"
  | (completed) ref where
      "playerMatches s winnerId = Some ref"
      "(player1 (matches s ! ref) = winnerId \<and> player2 (matches s ! ref) = loser) \<or>
       (player2 (matches s ! ref) = winnerId \<and> player1 (matches s ! ref) = loser)"
      "p1wins (countedWin (matches s ! ref) winnerId) \<ge> winsNeeded s
       \<or> p2wins (countedWin (matches s ! ref) winnerId) \<ge> winsNeeded s"
      "recordWin s winnerId loser =
         saveToCSV (advanceWinner
           (s\<lparr>matches := (matches s)
                  [ref := completedMatch (winsNeeded s) (countedWin (matches s ! ref) winnerId)],
              playerMatches := (playerMatches s)
                  (player1 (matches s ! ref) := None, player2 (matches s ! ref) := None),
              monitor := monitor s @ [LogBeats winnerId loser,
                                      LogMatchComplete (matchId (matches s ! ref))]\<rparr>) ref)"
proof (cases "playerMatches s winnerId")
  case None
  then show ?thesis using ignored by (simp add: recordWin_def)
next
  case (Some ref)
  show ?thesis
  proof (cases "(player1 (matches s ! ref) = winnerId \<and> player2 (matches s ! ref) = loser) \<or>
       (player2 (matches s ! ref) = winnerId \<and> player1 (matches s ! ref) = loser)")
    case False
    then show ?thesis using ignored Some by (simp add: recordWin_def Let_def)
  next
    case pl: True
    show ?thesis
    proof (cases "p1wins (countedWin (matches s ! ref) winnerId) \<ge> winsNeeded s
       \<or> p2wins (countedWin (matches s ! ref) winnerId) \<ge> winsNeeded s")
      case True
      have "recordWin s winnerId loser =
         saveToCSV (advanceWinner
           (s\<lparr>matches := (matches s)
                  [ref := completedMatch (winsNeeded s) (countedWin (matches s ! ref) winnerId)],
              playerMatches := (playerMatches s)
                  (player1 (matches s ! ref) := None, player2 (matches s ! ref) := None),
              monitor := monitor s @ [LogBeats winnerId loser,
                                      LogMatchComplete (matchId (matches s ! ref))]\<rparr>) ref)"
        using Some pl True
        by (auto simp: recordWin_def Let_def countedWin_def completedMatch_def winsNeeded_def)
      then show ?thesis using completed[of ref] Some pl True by blast
    next
      case False
      have "recordWin s winnerId loser =
         saveToCSV (s\<lparr>matches := (matches s)[ref := countedWin (matches s ! ref) winnerId],
                      monitor := monitor s @ [LogBeats winnerId loser]\<rparr>)"
        using Some pl False
        by (auto simp: recordWin_def Let_def countedWin_def winsNeeded_def)
      then show ?thesis using counted[of ref] Some pl False by (simp add: not_le)
    qed
  qed
qed

lemma recordWin_frame:
  "bestOf (recordWin s w l) = bestOf s"
  "format (recordWin s w l) = format s"
  "participants (recordWin s w l) = participants s"
  "displayNames (recordWin s w l) = displayNames s"
  "initialized (recordWin s w l) = initialized s"
  "frozen (recordWin s w l) = frozen s"
  "length (matches (recordWin s w l)) = length (matches s)"
  by (cases rule: recordWin_cases[of s w l];
      simp add: recordWin_def Let_def saveToCSV_frame advanceWinner_frame split: option.splits)+


lemma nth_update_cases: "i < length ms \<Longrightarrow> (ms[n := x]) ! i = (if i = n then x else ms ! i)"
  by simp

lemma refsOk_update_same:
  assumes "refsOk ms pm" "status x = status (ms ! i)" "player1 x = player1 (ms ! i)"
    "player2 x = player2 (ms ! i)"
  shows "refsOk (ms[i := x]) pm"
  unfolding refsOk_def
proof (intro allI impI)
  fix a ref assume "pm a = Some ref"
  then have r: "ref < length ms" "status (ms ! ref) = Active" "plays a (ms ! ref)"
    using assms(1) by (auto simp: refsOk_def)
  show "ref < length (ms[i := x]) \<and> status (ms[i := x] ! ref) = Active \<and> plays a (ms[i := x] ! ref)"
    using r assms(2-4) by (cases "ref = i") (auto simp: plays_def)
qed

lemma refsOk_complete:
  assumes "refsOk ms pm" "player1 x = player1 (ms ! i)" "player2 x = player2 (ms ! i)"
  shows "refsOk (ms[i := x]) (pm(player1 (ms ! i) := None, player2 (ms ! i) := None))"
  unfolding refsOk_def
proof (intro allI impI)
  fix a ref assume a: "(pm(player1 (ms ! i) := None, player2 (ms ! i) := None)) a = Some ref"
  then have na: "a \<noteq> player1 (ms ! i)" "a \<noteq> player2 (ms ! i)" and p: "pm a = Some ref"
    by (auto split: if_splits)
  then have r: "ref < length ms" "status (ms ! ref) = Active" "plays a (ms ! ref)"
    using assms(1) by (auto simp: refsOk_def)
  then have "ref \<noteq> i" using na by (auto simp: plays_def)
  then show "ref < length (ms[i := x]) \<and> status (ms[i := x] ! ref) = Active \<and> plays a (ms[i := x] ! ref)"
    using r by simp
qed

lemma all_update:
  assumes "\<forall>m \<in> set ms. P m" "P x"
  shows "\<forall>m \<in> set (ms[i := x]). P m"
  using assms by (auto dest!: set_update_subset_insert[THEN subsetD])

lemma recordWin_wellFormed:
  assumes wf: "wellFormed s"
  shows "wellFormed (recordWin s winnerId loser)"
proof (cases rule: recordWin_cases[of s winnerId loser])
  case ignored
  then show ?thesis using wf wellFormed_cong[of "recordWin s winnerId loser" s]
    by (simp add: recordWin_frame)
next
  case (counted ref)
  have refs: "refsOk (matches s) (playerMatches s)" and ok: "\<forall>m \<in> set (matches s). matchOk (winsNeeded s) m"
    using wf by (simp_all add: wellFormed_def)
  have r: "ref < length (matches s)" "status (matches s ! ref) = Active"
    using refs counted(1) by (auto simp: refsOk_def)
  let ?m = "countedWin (matches s ! ref) winnerId"
  have "matchOk (winsNeeded s) (matches s ! ref)" using ok r(1) by simp
  then have "matchOk (winsNeeded s) ?m"
    using counted(3,4) r(2) by (auto simp: matchOk_def countedWin_def)
  then have "\<forall>m \<in> set ((matches s)[ref := ?m]). matchOk (winsNeeded s) m"
    using ok by (intro all_update) simp_all
  moreover have "refsOk ((matches s)[ref := ?m]) (playerMatches s)"
    using refs by (rule refsOk_update_same) (simp_all add: countedWin_def)
  ultimately show ?thesis
    unfolding counted(5) by (simp add: wellFormed_def winsNeeded_def saveToCSV_frame)
next
  case (completed ref)
  have refs: "refsOk (matches s) (playerMatches s)" and ok: "\<forall>m \<in> set (matches s). matchOk (winsNeeded s) m"
    using wf by (simp_all add: wellFormed_def)
  have r: "ref < length (matches s)" "status (matches s ! ref) = Active"
    using refs completed(1) by (auto simp: refsOk_def)
  let ?m = "completedMatch (winsNeeded s) (countedWin (matches s ! ref) winnerId)"
  let ?s2 = "s\<lparr>matches := (matches s)[ref := ?m],
              playerMatches := (playerMatches s)
                  (player1 (matches s ! ref) := None, player2 (matches s ! ref) := None),
              monitor := monitor s @ [LogBeats winnerId loser,
                                      LogMatchComplete (matchId (matches s ! ref))]\<rparr>"
  have "matchOk (winsNeeded s) (matches s ! ref)" using ok r(1) by simp
  then have "matchOk (winsNeeded s) ?m"
    using r(2) by (auto simp: matchOk_def countedWin_def completedMatch_def)
  then have "\<forall>m \<in> set ((matches s)[ref := ?m]). matchOk (winsNeeded s) m"
    using ok by (intro all_update) simp_all
  moreover have "refsOk ((matches s)[ref := ?m])
      ((playerMatches s)(player1 (matches s ! ref) := None, player2 (matches s ! ref) := None))"
    using refs by (rule refsOk_complete) (simp_all add: countedWin_def completedMatch_def)
  ultimately have "wellFormed ?s2" by (simp add: wellFormed_def winsNeeded_def)
  then have "wellFormed (advanceWinner ?s2 ref)"
    by (rule advanceWinner_wellFormed) (simp add: r(1))
  then show ?thesis unfolding completed(4) by (simp add: saveToCSV_wellFormed)
qed


lemma resumeStep_frame:
  "bestOf (resumeStep c s) = bestOf s" "frozen (resumeStep c s) = frozen s"
  "initialized (resumeStep c s) = initialized s"
  "length (matches (resumeStep c s)) = length (matches s)"
  "format (resumeStep c s) = format s" "participants (resumeStep c s) = participants s"
  "displayNames (resumeStep c s) = displayNames s"
  by (simp_all add: resumeStep_def Let_def advanceWinner_frame split: option.splits)





lemma fold_pushPlaceholder:
  "fold (\<lambda>i. pushPlaceholder r) xs acc =
     (fst acc @ map (\<lambda>j. placeholderMatch (int r) (snd acc + int j)) [0..<length xs],
      snd acc + int (length xs))"
proof (induction xs arbitrary: acc)
  case Nil then show ?case by simp
next
  case (Cons x xs)
  have "map (\<lambda>j. placeholderMatch (int r) (snd acc + int j)) [0..<Suc (length xs)]
        = placeholderMatch (int r) (snd acc)
          # map (\<lambda>j. placeholderMatch (int r) (snd acc + 1 + int j)) [0..<length xs]"
    by (simp add: upt_conv_Cons map_Suc_upt[symmetric] del: upt_Suc) (simp add: add.commute add.left_commute)
  then show ?case using Cons.IH[of "pushPlaceholder r acc"]
    by (simp add: pushPlaceholder_def add.assoc)
qed

lemma pushRound_eq:
  "pushRound t r acc =
     (fst acc @ map (\<lambda>j. placeholderMatch (int r) (snd acc + int j)) [0..<2 ^ (t - r)],
      snd acc + 2 ^ (t - r))"
  by (simp add: pushRound_def fold_pushPlaceholder)

lemma fold_pushRound:
  "fst (fold (pushRound t) rs acc) = fst acc @ placeholders t (snd acc) rs"
proof (induction rs arbitrary: acc)
  case Nil then show ?case by simp
next
  case (Cons r rs)
  show ?case using Cons.IH[of "pushRound t r acc"] by (simp add: pushRound_eq)
qed

lemma pushPlaceholders_eq:
  "fst (pushPlaceholders t (ms, mid)) = ms @ placeholders t mid [2..<Suc t]"
  by (simp add: pushPlaceholders_def fold_pushRound)

lemma placeholders_set:
  assumes "m \<in> set (placeholders t mid rs)"
  shows "\<exists>r \<in> set rs. \<exists>i. m = placeholderMatch (int r) i"
  using assms by (induction rs arbitrary: mid) auto

lemma fold_pushFirstRound_matches:
  "matches (fold (pushFirstRound sp ps) [0..<k] s)
     = matches s @ map (\<lambda>i. firstRoundMatch sp i (ps ! i)) [0..<k]"
  by (induction k) (simp_all add: pushFirstRound_def Let_def)

lemma fold_pushFirstRound_refs:
  assumes "matches s = []" "playerMatches s = Map.empty"
    and "playerMatches (fold (pushFirstRound sp ps) [0..<k] s) a = Some ref"
  shows "ref < k \<and> plays a (firstRoundMatch sp ref (ps ! ref))"
  using assms(3)
proof (induction k arbitrary: ref)
  case 0
  then show ?case using assms(2) by simp
next
  case (Suc k)
  let ?t = "fold (pushFirstRound sp ps) [0..<k] s"
  have len: "length (matches ?t) = k" using assms(1) by (simp add: fold_pushFirstRound_matches)
  have step: "fold (pushFirstRound sp ps) [0..<Suc k] s = pushFirstRound sp ps k ?t" by simp
  show ?case
  proof (cases "plays a (firstRoundMatch sp k (ps ! k))")
    case True
    then have "ref = k" using Suc.prems unfolding step
      by (auto simp: pushFirstRound_def Let_def len plays_def split: if_splits)
    then show ?thesis using True by simp
  next
    case False
    then have "playerMatches ?t a = Some ref" using Suc.prems unfolding step
      by (auto simp: pushFirstRound_def Let_def len plays_def split: if_splits)
    then show ?thesis using Suc.IH by (simp add: less_Suc_eq)
  qed
qed

text \<open>The state that \<open>initialize\<close> returns.\<close>

lemma initialize_Inr:
  assumes "initialize s fmt players bo randomize rnd = Inr s'"
  obtains ps s1 where
    "\<not> initialized s" "2 \<le> length players" "isPowerOfTwo (length players)"
    "generateStandardPairings (length players) = Some ps"
    "matches s1 = []" "playerMatches s1 = Map.empty"
    "matches s' =
       map (\<lambda>i. firstRoundMatch (if randomize then shuffleArray rnd players else players) i (ps ! i))
           [0..<length players div 2]
       @ placeholders (log2 (length players)) (int (length players div 2) + 1)
           [2..<Suc (log2 (length players))]"
    "playerMatches s' =
       playerMatches (fold (pushFirstRound (if randomize then shuffleArray rnd players else players) ps)
                        [0..<length players div 2] s1)"
    "bestOf s' = bo" "format s' = fmt" "participants s' = int (length players)"
    "currentRound s' = 1" "initialized s'" "frozen s' = frozen s"
    "displayNames s' = fold (\<lambda>player dn. dn(toID player \<mapsto> player))
                         (if randomize then shuffleArray rnd players else players) Map.empty"
proof -
  let ?sp = "if randomize then shuffleArray rnd players else players"
  let ?s1 = "s\<lparr>format := fmt, participants := int (length players), bestOf := bo,
                     currentRound := 1, matches := [], playerMatches := Map.empty,
                     displayNames := fold (\<lambda>player dn. dn(toID player \<mapsto> player)) ?sp Map.empty\<rparr>"
  from assms have a: "\<not> initialized s" "2 \<le> length players" "isPowerOfTwo (length players)"
    by (auto simp: initialize_def Let_def split: if_splits)
  with assms obtain ps where ps: "generateStandardPairings (length players) = Some ps"
    by (auto simp: initialize_def Let_def split: if_splits option.splits)
  have s': "s' = (saveToCSV ((fold (pushFirstRound ?sp ps) [0..<length players div 2] ?s1)
       \<lparr>matches := fst (pushPlaceholders (log2 (length players))
            (matches (fold (pushFirstRound ?sp ps) [0..<length players div 2] ?s1),
             int (length players div 2) + 1)),
        initialized := True\<rparr>))
       \<lparr>monitor := monitor (saveToCSV ((fold (pushFirstRound ?sp ps) [0..<length players div 2] ?s1)
       \<lparr>matches := fst (pushPlaceholders (log2 (length players))
            (matches (fold (pushFirstRound ?sp ps) [0..<length players div 2] ?s1),
             int (length players div 2) + 1)),
        initialized := True\<rparr>)) @ [LogInitialized (length players), LogBestOf (bo div 2 + 1), LogRound1]\<rparr>"
    using assms a ps by (simp add: initialize_def Let_def)
  show ?thesis
    by (rule that[of ps ?s1])
       (simp_all add: a ps s' saveToCSV_def pushPlaceholders_eq fold_pushFirstRound_matches
          fold_pushFirstRound_fields)
qed

lemma initialize_wellFormed:
  assumes "initialize s fmt players bo randomize rnd = Inr s'"
  shows "wellFormed s'"
proof -
  from assms obtain ps s1 where i:
    "matches s1 = []" "playerMatches s1 = Map.empty"
    "matches s' =
       map (\<lambda>i. firstRoundMatch (if randomize then shuffleArray rnd players else players) i (ps ! i))
           [0..<length players div 2]
       @ placeholders (log2 (length players)) (int (length players div 2) + 1)
           [2..<Suc (log2 (length players))]"
    "playerMatches s' =
       playerMatches (fold (pushFirstRound (if randomize then shuffleArray rnd players else players) ps)
                        [0..<length players div 2] s1)"
    by (rule initialize_Inr)
  let ?sp = "if randomize then shuffleArray rnd players else players"
  let ?R1 = "map (\<lambda>i. firstRoundMatch ?sp i (ps ! i)) [0..<length players div 2]"
  let ?PH = "placeholders (log2 (length players)) (int (length players div 2) + 1)
           [2..<Suc (log2 (length players))]"
  have ok1: "matchOk needed m" if "m \<in> set ?R1" for m needed
    using that by (auto simp: matchOk_def firstRoundMatch_def Let_def)
  have ok2: "matchOk needed m" if "m \<in> set ?PH" for m needed
    using placeholders_set[OF that] by (auto simp: matchOk_def placeholderMatch_def)
  have ok: "\<forall>m \<in> set (matches s'). matchOk (winsNeeded s') m"
    unfolding i(3) using ok1 ok2 by auto
  have "refsOk (matches s') (playerMatches s')"
    unfolding refsOk_def
  proof (intro allI impI)
    fix a ref assume "playerMatches s' a = Some ref"
    then have r: "ref < length players div 2" "plays a (firstRoundMatch ?sp ref (ps ! ref))"
      using fold_pushFirstRound_refs[OF i(1,2), of ?sp ps "length players div 2" a ref]
      unfolding i(4) by simp_all
    then have "matches s' ! ref = firstRoundMatch ?sp ref (ps ! ref)"
      unfolding i(3) by (simp add: nth_append)
    then show "ref < length (matches s') \<and> status (matches s' ! ref) = Active \<and> plays a (matches s' ! ref)"
      using r unfolding i(3) by (simp add: firstRoundMatch_def Let_def plays_def)
  qed
  then show ?thesis using ok by (simp add: wellFormed_def)
qed


lemma run_snoc: "run (ops @ [op]) = perform (run ops) op"
  by (simp add: run_def)







section \<open>Brackets of players with different identities\<close>

lemma nth_update_field:
  assumes "f x = f (ms ! n)"
  shows "f (ms[n := x] ! j) = f (ms ! j)"
  using assms by (metis list_update_beyond nth_list_update not_le_imp_less)

lemma roundMatches_update:
  assumes "roundNo x = roundNo (ms ! n)"
  shows "roundMatches (ms[n := x]) r = roundMatches ms r"
  by (simp add: roundMatches_def nth_update_field[of roundNo, OF assms])

lemma nextMatchOf_update:
  assumes "roundNo x = roundNo (ms ! n)" "matchId x = matchId (ms ! n)"
  shows "nextMatchOf (ms[n := x]) c = nextMatchOf ms c"
proof -
  have i: "matchId \<circ> (!) (ms[n := x]) = matchId \<circ> (!) ms"
    by (rule ext) (simp add: nth_update_field[of matchId, OF assms(2)])
  show ?thesis
    by (simp add: nextMatchOf_def Let_def roundMatches_update[OF assms(1)] i
        nth_update_field[of roundNo, OF assms(1)] nth_update_field[of matchId, OF assms(2)]
        split: list.splits)
qed

lemma nextMatchOf_neq:
  assumes "nextMatchOf ms c = Some n"
  shows "n \<noteq> c"
  using nextMatchOf_Some(2)[OF assms] by auto

text \<open>Consequences of the invariants: an identity is in one match of a round at most.\<close>

lemma unique_in_round:
  assumes fr: "firstRoundDistinct ms" and pv: "provenance ms" and wp: "winnersPlay ms"
    and rounds: "\<forall>m \<in> set ms. 1 \<le> roundNo m" and a: "a \<noteq> []"
  shows "i < length ms \<Longrightarrow> j < length ms \<Longrightarrow> plays a (ms ! i) \<Longrightarrow> plays a (ms ! j)
           \<Longrightarrow> roundNo (ms ! i) = roundNo (ms ! j) \<Longrightarrow> i = j"
proof (induction "nat (roundNo (ms ! i))" arbitrary: i j rule: less_induct)
  case less
  show ?case
  proof (cases "roundNo (ms ! i) = 1")
    case True
    then show ?thesis using fr less.prems by (auto simp: firstRoundDistinct_def)
  next
    case False
    then obtain ci where ci: "ci < length ms" "nextMatchOf ms ci = Some i"
      "status (ms ! ci) = Complete" "winner (ms ! ci) = Some a"
      using pv less.prems(1,3) a by (auto simp: provenance_def)
    from False less.prems(5) obtain cj where cj: "cj < length ms" "nextMatchOf ms cj = Some j"
      "status (ms ! cj) = Complete" "winner (ms ! cj) = Some a"
      using pv less.prems(2,4) a by (auto simp: provenance_def)
    have pi: "plays a (ms ! ci)" using wp ci(1,3,4) by (auto simp: winnersPlay_def)
    have pj: "plays a (ms ! cj)" using wp cj(1,3,4) by (auto simp: winnersPlay_def)
    have ri: "roundNo (ms ! i) = roundNo (ms ! ci) + 1" using nextMatchOf_Some(2)[OF ci(2)] .
    have rj: "roundNo (ms ! j) = roundNo (ms ! cj) + 1" using nextMatchOf_Some(2)[OF cj(2)] .
    have "1 \<le> roundNo (ms ! ci)" using rounds ci(1) by simp
    then have lt: "nat (roundNo (ms ! ci)) < nat (roundNo (ms ! i))" using ri by simp
    have "ci = cj"
      using less.hyps[OF lt ci(1) cj(1) pi pj] ri rj less.prems(5) by simp
    then show ?thesis using ci(2) cj(2) by simp
  qed
qed

text \<open>A match of a lower round in which an identity of a higher round plays is complete.\<close>

lemma lower_complete:
  assumes fr: "firstRoundDistinct ms" and pv: "provenance ms" and wp: "winnersPlay ms"
    and rounds: "\<forall>m \<in> set ms. 1 \<le> roundNo m" and a: "a \<noteq> []"
  shows "i < length ms \<Longrightarrow> j < length ms \<Longrightarrow> plays a (ms ! i) \<Longrightarrow> plays a (ms ! j)
           \<Longrightarrow> roundNo (ms ! i) < roundNo (ms ! j)
           \<Longrightarrow> status (ms ! i) = Complete \<and> winner (ms ! i) = Some a"
proof (induction "nat (roundNo (ms ! j))" arbitrary: j rule: less_induct)
  case less
  have "1 \<le> roundNo (ms ! i)" using rounds less.prems(1) by simp
  then have "roundNo (ms ! j) \<noteq> 1" using less.prems(5) by simp
  then obtain c where c: "c < length ms" "nextMatchOf ms c = Some j"
      "status (ms ! c) = Complete" "winner (ms ! c) = Some a"
    using pv less.prems(2,4) a by (auto simp: provenance_def)
  have pc: "plays a (ms ! c)" using wp c(1,3,4) by (auto simp: winnersPlay_def)
  have rc: "roundNo (ms ! j) = roundNo (ms ! c) + 1" using nextMatchOf_Some(2)[OF c(2)] .
  show ?case
  proof (cases "roundNo (ms ! c) = roundNo (ms ! i)")
    case True
    then have "c = i"
      using unique_in_round[OF fr pv wp rounds a c(1) less.prems(1) pc less.prems(3)] by simp
    then show ?thesis using c(3,4) by simp
  next
    case False
    then have lt: "roundNo (ms ! i) < roundNo (ms ! c)" using rc less.prems(5) by simp
    have "1 \<le> roundNo (ms ! c)" using rounds c(1) by simp
    then have "nat (roundNo (ms ! c)) < nat (roundNo (ms ! j))" using rc by simp
    then show ?thesis using less.hyps[OF _ less.prems(1) c(1) less.prems(3) pc lt] by simp
  qed
qed

text \<open>An identity of a higher round plays in the match that its match of a lower round feeds.\<close>

lemma plays_next:
  assumes fr: "firstRoundDistinct ms" and pv: "provenance ms" and wp: "winnersPlay ms"
    and rounds: "\<forall>m \<in> set ms. 1 \<le> roundNo m" and a: "a \<noteq> []"
    and c: "c < length ms" "plays a (ms ! c)" "nextMatchOf ms c = Some n"
  shows "i < length ms \<Longrightarrow> plays a (ms ! i) \<Longrightarrow> roundNo (ms ! c) < roundNo (ms ! i)
           \<Longrightarrow> plays a (ms ! n)"
proof (induction "nat (roundNo (ms ! i))" arbitrary: i rule: less_induct)
  case less
  have "1 \<le> roundNo (ms ! c)" using rounds c(1) by simp
  then have "roundNo (ms ! i) \<noteq> 1" using less.prems(3) by simp
  then obtain c' where c': "c' < length ms" "nextMatchOf ms c' = Some i"
      "status (ms ! c') = Complete" "winner (ms ! c') = Some a"
    using pv less.prems(1,2) a by (auto simp: provenance_def)
  have pc: "plays a (ms ! c')" using wp c'(1,3,4) by (auto simp: winnersPlay_def)
  have rc: "roundNo (ms ! i) = roundNo (ms ! c') + 1" using nextMatchOf_Some(2)[OF c'(2)] .
  show ?case
  proof (cases "roundNo (ms ! c') = roundNo (ms ! c)")
    case True
    then have "c' = c"
      using unique_in_round[OF fr pv wp rounds a c'(1) c(1) pc c(2)] by simp
    then show ?thesis using c'(2) c(3) less.prems(2) by simp
  next
    case False
    then have lt: "roundNo (ms ! c) < roundNo (ms ! c')" using rc less.prems(3) by simp
    have "1 \<le> roundNo (ms ! c')" using rounds c'(1) by simp
    then have "nat (roundNo (ms ! c')) < nat (roundNo (ms ! i))" using rc by simp
    then show ?thesis using less.hyps[OF _ c'(1) pc lt] by simp
  qed
qed


lemma tidy_parts:
  assumes "tidy s"
  shows "wellFormed s" "activeRefs (matches s) (playerMatches s)" "firstRoundDistinct (matches s)"
    "provenance (matches s)" "winnersPlay (matches s)" "\<forall>m \<in> set (matches s). 1 \<le> roundNo m"
    "\<forall>m \<in> set (matches s). matchOk (winsNeeded s) m" "refsOk (matches s) (playerMatches s)"
  using assms by (auto simp: tidy_def wellFormed_def matchOk_def)

lemma tidy_cong:
  assumes "matches s' = matches s" "playerMatches s' = playerMatches s" "bestOf s' = bestOf s"
  shows "tidy s' = tidy s"
  using assms wellFormed_cong[OF assms] by (simp add: tidy_def)

text \<open>
  The winner of a completed match who is not yet in the match it feeds plays in no
  active match.
\<close>

lemma winner_not_active:
  assumes fr: "firstRoundDistinct ms" and pv: "provenance ms" and wp: "winnersPlay ms"
    and rounds: "\<forall>m \<in> set ms. 1 \<le> roundNo m" and w: "w \<noteq> []"
    and c: "c < length ms" "status (ms ! c) = Complete" "winner (ms ! c) = Some w"
      "nextMatchOf ms c = Some n" "\<not> plays w (ms ! n)"
    and i: "i < length ms" "status (ms ! i) = Active"
  shows "\<not> plays w (ms ! i)"
proof
  assume p: "plays w (ms ! i)"
  have pc: "plays w (ms ! c)" using wp c(1,2,3) by (auto simp: winnersPlay_def)
  consider "roundNo (ms ! i) = roundNo (ms ! c)" | "roundNo (ms ! i) < roundNo (ms ! c)"
    | "roundNo (ms ! c) < roundNo (ms ! i)" by linarith
  then show False
  proof cases
    case 1
    then have "i = c" using unique_in_round[OF fr pv wp rounds w i(1) c(1) p pc] by simp
    then show False using c(2) i(2) by simp
  next
    case 2
    then have "status (ms ! i) = Complete"
      using lower_complete[OF fr pv wp rounds w i(1) c(1) p pc] by simp
    then show False using i(2) by simp
  next
    case 3
    then have "plays w (ms ! n)"
      using plays_next[OF fr pv wp rounds w c(1) pc c(4) i(1) p] by simp
    then show False using c(5) by simp
  qed
qed

text \<open>A player of a match that is not complete plays in no other active match.\<close>

lemma waiting_not_active:
  assumes fr: "firstRoundDistinct ms" and pv: "provenance ms" and wp: "winnersPlay ms"
    and rounds: "\<forall>m \<in> set ms. 1 \<le> roundNo m" and u: "u \<noteq> []"
    and n: "n < length ms" "plays u (ms ! n)" "status (ms ! n) \<noteq> Complete"
    and i: "i < length ms" "status (ms ! i) = Active" "i \<noteq> n"
  shows "\<not> plays u (ms ! i)"
proof
  assume p: "plays u (ms ! i)"
  consider "roundNo (ms ! i) = roundNo (ms ! n)" | "roundNo (ms ! i) < roundNo (ms ! n)"
    | "roundNo (ms ! n) < roundNo (ms ! i)" by linarith
  then show False
  proof cases
    case 1
    then have "i = n" using unique_in_round[OF fr pv wp rounds u i(1) n(1) p n(2)] by simp
    then show False using i(3) by simp
  next
    case 2
    then have "status (ms ! i) = Complete"
      using lower_complete[OF fr pv wp rounds u i(1) n(1) p n(2)] by simp
    then show False using i(2) by simp
  next
    case 3
    then have "status (ms ! n) = Complete"
      using lower_complete[OF fr pv wp rounds u n(1) i(1) n(2) p] by simp
    then show False using n(3) by simp
  qed
qed

text \<open>Writing a match of a later round that is not complete: what stays.\<close>

lemma firstRoundDistinct_update:
  assumes "firstRoundDistinct ms" "roundNo x = roundNo (ms ! n)" "roundNo (ms ! n) \<noteq> 1"
  shows "firstRoundDistinct (ms[n := x])"
  unfolding firstRoundDistinct_def
proof (intro allI impI, elim conjE)
  fix a i j
  assume h: "i < length (ms[n := x])" "j < length (ms[n := x])" "roundNo (ms[n := x] ! i) = 1"
    "roundNo (ms[n := x] ! j) = 1" "plays a (ms[n := x] ! i)" "plays a (ms[n := x] ! j)"
  have "i \<noteq> n" "j \<noteq> n" using h(1-4) assms(2,3) by auto
  then show "i = j" using h assms(1) by (auto simp: firstRoundDistinct_def)
qed

lemma winnersPlay_update:
  assumes "winnersPlay ms" "status x \<noteq> Complete"
  shows "winnersPlay (ms[n := x])"
  unfolding winnersPlay_def
proof (intro allI impI)
  fix c assume h: "c < length (ms[n := x])" "status (ms[n := x] ! c) = Complete"
  then have "c \<noteq> n" using assms(2) by auto
  then show "\<exists>a. winner (ms[n := x] ! c) = Some a \<and> plays a (ms[n := x] ! c)"
    using h assms(1) by (auto simp: winnersPlay_def)
qed

lemma provenance_update:
  assumes pv: "provenance ms" and n: "n < length ms"
    and same: "roundNo x = roundNo (ms ! n)" "matchId x = matchId (ms ! n)"
    and nc: "status (ms ! n) \<noteq> Complete"
    and new: "\<forall>a. a \<noteq> [] \<and> plays a x \<longrightarrow> plays a (ms ! n)
               \<or> (\<exists>c < length ms. nextMatchOf ms c = Some n \<and> status (ms ! c) = Complete
                     \<and> winner (ms ! c) = Some a)"
  shows "provenance (ms[n := x])"
  unfolding provenance_def
proof (intro allI impI, elim conjE)
  fix m a
  assume h: "m < length (ms[n := x])" "roundNo (ms[n := x] ! m) \<noteq> 1" "a \<noteq> []"
    "plays a (ms[n := x] ! m)"
  have r: "roundNo (ms ! m) \<noteq> 1" using h(1,2) same(1) by (cases "m = n") auto
  have "plays a (ms ! m) \<or> (\<exists>c < length ms. nextMatchOf ms c = Some m \<and> status (ms ! c) = Complete
                     \<and> winner (ms ! c) = Some a)"
    using h(1,3,4) new by (cases "m = n") auto
  then obtain c where c: "c < length ms" "nextMatchOf ms c = Some m" "status (ms ! c) = Complete"
      "winner (ms ! c) = Some a"
    using pv h(1,3) r by (auto simp: provenance_def)
  have "c \<noteq> n" using c(3) nc by auto
  then have "status (ms[n := x] ! c) = Complete" "winner (ms[n := x] ! c) = Some a"
    using c by simp_all
  then show "\<exists>c<length (ms[n := x]). nextMatchOf (ms[n := x]) c = Some m
        \<and> status (ms[n := x] ! c) = Complete \<and> winner (ms[n := x] ! c) = Some a"
    using c(1,2) nextMatchOf_update[OF same] by auto
qed

lemma startIfReady_tidy:
  assumes t: "tidy s" and n: "n < length (matches s)"
    and c: "c < length (matches s)" "status (matches s ! c) = Complete"
      "winner (matches s ! c) = Some w" "nextMatchOf (matches s) c = Some n"
    and pre: "w \<noteq> [] \<longrightarrow> \<not> plays w (matches s ! n)"
    and pl: "(player1 (matches s ! n) = []
          \<and> placed = (matches s ! n)\<lparr>player1 := w, player1Display := d\<rparr>)
       \<or> (player1 (matches s ! n) \<noteq> [] \<and> player2 (matches s ! n) = []
          \<and> placed = (matches s ! n)\<lparr>player2 := w, player2Display := d\<rparr>)"
  shows "tidy (startIfReady s n r placed)"
proof -
  let ?ms = "matches s" and ?pm = "playerMatches s"
  let ?N = "matches s ! n"
  note p = tidy_parts[OF t]
  have rn: "roundNo ?N = roundNo (?ms ! c) + 1" using nextMatchOf_Some(2)[OF c(4)] .
  have "1 \<le> roundNo (?ms ! c)" using p(6) c(1) by simp
  then have r2: "2 \<le> roundNo ?N" using rn by simp
  have okN: "matchOk (winsNeeded s) ?N" using p(7) n by simp
  have empty: "player1 ?N = [] \<or> player2 ?N = []" using pl by blast
  then have st: "status ?N \<noteq> Active" "status ?N \<noteq> Complete"
    using okN r2 by (auto simp: matchOk_def)
  have same: "roundNo placed = roundNo ?N" "p1wins placed = p1wins ?N" "p2wins placed = p2wins ?N"
    "matchId placed = matchId ?N"
    using pl by auto
  have wf: "wellFormed (startIfReady s n r placed)"
    using startIfReady_wellFormed[OF p(1) n st same(1-3)] .
  have players: "\<forall>a. a \<noteq> [] \<and> plays a placed \<longrightarrow> a = w \<or> plays a ?N"
    using pl by (auto simp: plays_def)
  define x where "x = placed\<lparr>status := (if player1 placed \<noteq> [] \<and> player2 placed \<noteq> []
                                         then Active else Waiting)\<rparr>"
  have xs: "roundNo x = roundNo ?N" "matchId x = matchId ?N" "status x \<noteq> Complete"
    "player1 x = player1 placed" "player2 x = player2 placed"
    using same by (simp_all add: x_def)
  have m': "matches (startIfReady s n r placed) = ?ms[n := x]"
    by (simp add: startIfReady_def x_def)
  have fr: "firstRoundDistinct (?ms[n := x])"
    using p(3) xs(1) r2 by (intro firstRoundDistinct_update) simp_all
  have wp: "winnersPlay (?ms[n := x])" using p(5) xs(3) by (rule winnersPlay_update)
  have "\<forall>a. a \<noteq> [] \<and> plays a x \<longrightarrow> plays a ?N
               \<or> (\<exists>c < length ?ms. nextMatchOf ?ms c = Some n \<and> status (?ms ! c) = Complete
                     \<and> winner (?ms ! c) = Some a)"
    using players c xs(4,5) by (auto simp: plays_def)
  then have pv: "provenance (?ms[n := x])"
    using provenance_update[OF p(4) n xs(1,2) st(2)] by simp
  have ar: "activeRefs (matches (startIfReady s n r placed)) (playerMatches (startIfReady s n r placed))"
  proof (cases "player1 placed \<noteq> [] \<and> player2 placed \<noteq> []")
    case False
    then have pm': "playerMatches (startIfReady s n r placed) = ?pm"
      and xw: "status x = Waiting"
      by (auto simp: startIfReady_def x_def)
    show ?thesis
      unfolding m' pm' activeRefs_def
    proof (intro allI impI)
      fix i assume h: "i < length (?ms[n := x])" "status (?ms[n := x] ! i) = Active"
      then have "i \<noteq> n" using xw by auto
      then show "?pm (player1 (?ms[n := x] ! i)) = Some i \<and> ?pm (player2 (?ms[n := x] ! i)) = Some i"
        using h p(2) by (auto simp: activeRefs_def)
    qed
  next
    case True
    then have pm': "playerMatches (startIfReady s n r placed)
                      = ?pm(player1 placed \<mapsto> n, player2 placed \<mapsto> n)"
      by (simp add: startIfReady_def)
    have wne: "w \<noteq> []" using True pl by auto
    then have notin: "\<not> plays w ?N" using pre by simp
    have free: "\<not> plays a (?ms ! i)"
      if "i < length ?ms" "status (?ms ! i) = Active" "i \<noteq> n" "plays a placed" for a i
    proof (cases "a = w")
      case True
      then show ?thesis
        using winner_not_active[OF p(3,4,5,6) wne c(1,2,3,4) notin that(1,2)] by simp
    next
      case False
      have ane: "a \<noteq> []" using that(4) True by (auto simp: plays_def)
      then have "plays a ?N" using players that(4) False by blast
      then show ?thesis
        using waiting_not_active[OF p(3,4,5,6) ane n _ st(2) that(1,2,3)] by simp
    qed
    show ?thesis
      unfolding m' pm' activeRefs_def
    proof (intro allI impI)
      fix i assume h: "i < length (?ms[n := x])" "status (?ms[n := x] ! i) = Active"
      show "(?pm(player1 placed \<mapsto> n, player2 placed \<mapsto> n)) (player1 (?ms[n := x] ! i)) = Some i
          \<and> (?pm(player1 placed \<mapsto> n, player2 placed \<mapsto> n)) (player2 (?ms[n := x] ! i)) = Some i"
      proof (cases "i = n")
        case True
        then show ?thesis using h(1) xs(4,5) by simp
      next
        case False
        then have i: "i < length ?ms" "status (?ms ! i) = Active" using h by simp_all
        have "\<not> plays (player1 placed) (?ms ! i)" "\<not> plays (player2 placed) (?ms ! i)"
          using free[OF i False] by (simp_all add: plays_def)
        then have "player1 (?ms ! i) \<noteq> player1 placed" "player1 (?ms ! i) \<noteq> player2 placed"
          "player2 (?ms ! i) \<noteq> player1 placed" "player2 (?ms ! i) \<noteq> player2 placed"
          by (auto simp: plays_def)
        then show ?thesis using False i p(2) by (simp add: activeRefs_def)
      qed
    qed
  qed
  show ?thesis
    unfolding tidy_def using wf ar fr pv wp by (simp add: m')
qed

lemma advanceWinner_tidy:
  assumes t: "tidy s" and c: "c < length (matches s)" "status (matches s ! c) = Complete"
    and pre: "\<forall>w n. winner (matches s ! c) = Some w \<and> nextMatchOf (matches s) c = Some n \<and> w \<noteq> []
                \<longrightarrow> \<not> plays w (matches s ! n)"
  shows "tidy (advanceWinner s c)"
proof (cases rule: advanceWinner_cases[of s c])
  case same
  then show ?thesis using t tidy_cong[of "advanceWinner s c" s] by (simp add: advanceWinner_frame)
next
  case (placed w n placed)
  let ?s1 = "s\<lparr>monitor := monitor s @ [LogAdvancing (matchId (matches s ! c)) (matchId (matches s ! n))]\<rparr>"
  have t1: "tidy ?s1" using t tidy_cong[of ?s1 s] by simp
  have n: "n < length (matches s)" using nextMatchOf_Some(1)[OF placed(3)] .
  show ?thesis
    unfolding placed(5)
    using startIfReady_tidy[of ?s1 n c w placed "displayOf s w"] t1 n c placed(1,3,4) pre
    by simp
qed

text \<open>Writing a match that keeps its round, identifier, players, status and winner.\<close>

lemma tidy_parts_update_same:
  assumes "roundNo x = roundNo (ms ! i)" "matchId x = matchId (ms ! i)"
    "player1 x = player1 (ms ! i)" "player2 x = player2 (ms ! i)"
    "status x = status (ms ! i)" "winner x = winner (ms ! i)"
  shows "activeRefs (ms[i := x]) pm = activeRefs ms pm"
    "firstRoundDistinct (ms[i := x]) = firstRoundDistinct ms"
    "provenance (ms[i := x]) = provenance ms"
    "winnersPlay (ms[i := x]) = winnersPlay ms"
  by (simp_all add: activeRefs_def firstRoundDistinct_def provenance_def winnersPlay_def plays_def
      nth_update_field[of roundNo, OF assms(1)] nth_update_field[of player1, OF assms(3)]
      nth_update_field[of player2, OF assms(4)] nth_update_field[of status, OF assms(5)]
      nth_update_field[of winner, OF assms(6)] nextMatchOf_update[OF assms(1,2)])

lemma completed_wellFormed:
  assumes wf: "wellFormed s" and ref: "playerMatches s winnerId = Some ref"
  shows "wellFormed
           (s\<lparr>matches := (matches s)
                  [ref := completedMatch (winsNeeded s) (countedWin (matches s ! ref) winnerId)],
              playerMatches := (playerMatches s)
                  (player1 (matches s ! ref) := None, player2 (matches s ! ref) := None),
              monitor := logged\<rparr>)"
proof -
  have refs: "refsOk (matches s) (playerMatches s)" and ok: "\<forall>m \<in> set (matches s). matchOk (winsNeeded s) m"
    using wf by (simp_all add: wellFormed_def)
  have r: "ref < length (matches s)" "status (matches s ! ref) = Active"
    using refs ref by (auto simp: refsOk_def)
  let ?m = "completedMatch (winsNeeded s) (countedWin (matches s ! ref) winnerId)"
  have "matchOk (winsNeeded s) (matches s ! ref)" using ok r(1) by simp
  then have "matchOk (winsNeeded s) ?m"
    using r(2) by (auto simp: matchOk_def countedWin_def completedMatch_def)
  then have "\<forall>m \<in> set ((matches s)[ref := ?m]). matchOk (winsNeeded s) m"
    using ok by (intro all_update) simp_all
  moreover have "refsOk ((matches s)[ref := ?m])
      ((playerMatches s)(player1 (matches s ! ref) := None, player2 (matches s ! ref) := None))"
    using refs by (rule refsOk_complete) (simp_all add: countedWin_def completedMatch_def)
  ultimately show ?thesis by (simp add: wellFormed_def winsNeeded_def)
qed

lemma completed_tidy:
  fixes logged :: "log_event list"
  assumes t: "tidy s" and ref: "playerMatches s winnerId = Some ref"
  defines "done \<equiv> completedMatch (winsNeeded s) (countedWin (matches s ! ref) winnerId)"
  defines "s2 \<equiv> s\<lparr>matches := (matches s)[ref := done],
              playerMatches := (playerMatches s)
                  (player1 (matches s ! ref) := None, player2 (matches s ! ref) := None),
              monitor := logged\<rparr>"
  shows "tidy s2"
    and "\<forall>w n. winner (matches s2 ! ref) = Some w \<and> nextMatchOf (matches s2) ref = Some n \<and> w \<noteq> []
                \<longrightarrow> \<not> plays w (matches s2 ! n)"
proof -
  let ?ms = "matches s" and ?pm = "playerMatches s"
  let ?M = "matches s ! ref"
  note p = tidy_parts[OF t]
  have r: "ref < length ?ms" "status ?M = Active" using p(8) ref by (auto simp: refsOk_def)
  have d: "roundNo done = roundNo ?M" "matchId done = matchId ?M" "player1 done = player1 ?M"
    "player2 done = player2 ?M" "status done = Complete"
    "\<exists>a. winner done = Some a \<and> plays a done"
    by (auto simp: done_def completedMatch_def countedWin_def plays_def)
  have wf: "wellFormed s2"
    unfolding s2_def done_def by (rule completed_wellFormed[OF p(1) ref])
  have both: "?pm (player1 ?M) = Some ref" "?pm (player2 ?M) = Some ref"
    using p(2) r by (auto simp: activeRefs_def)
  have ar: "activeRefs (?ms[ref := done])
      (?pm(player1 ?M := None, player2 ?M := None))"
    unfolding activeRefs_def
  proof (intro allI impI)
    fix i assume h: "i < length (?ms[ref := done])" "status (?ms[ref := done] ! i) = Active"
    then have ne: "i \<noteq> ref" using d(5) by auto
    then have i: "i < length ?ms" "status (?ms ! i) = Active" using h by simp_all
    then have pi: "?pm (player1 (?ms ! i)) = Some i" "?pm (player2 (?ms ! i)) = Some i"
      using p(2) by (auto simp: activeRefs_def)
    have "player1 (?ms ! i) \<noteq> player1 ?M" "player1 (?ms ! i) \<noteq> player2 ?M"
      "player2 (?ms ! i) \<noteq> player1 ?M" "player2 (?ms ! i) \<noteq> player2 ?M"
      using pi both ne by auto
    then show "(?pm(player1 ?M := None, player2 ?M := None)) (player1 (?ms[ref := done] ! i)) = Some i
       \<and> (?pm(player1 ?M := None, player2 ?M := None)) (player2 (?ms[ref := done] ! i)) = Some i"
      using ne pi by simp
  qed
  have fr: "firstRoundDistinct (?ms[ref := done])"
    unfolding firstRoundDistinct_def
    using p(3) by (simp add: firstRoundDistinct_def plays_def nth_update_field[of roundNo, OF d(1)]
        nth_update_field[of player1, OF d(3)] nth_update_field[of player2, OF d(4)])
  have pv: "provenance (?ms[ref := done])"
    using provenance_update[OF p(4) r(1) d(1,2)] r(2) d(3,4) by (simp add: plays_def)
  have wp: "winnersPlay (?ms[ref := done])"
    unfolding winnersPlay_def
  proof (intro allI impI)
    fix c assume h: "c < length (?ms[ref := done])" "status (?ms[ref := done] ! c) = Complete"
    show "\<exists>a. winner (?ms[ref := done] ! c) = Some a \<and> plays a (?ms[ref := done] ! c)"
      using h d(6) p(5) by (cases "c = ref") (auto simp: winnersPlay_def)
  qed
  show t2: "tidy s2" using wf ar fr pv wp by (simp add: tidy_def s2_def)
  show "\<forall>w n. winner (matches s2 ! ref) = Some w \<and> nextMatchOf (matches s2) ref = Some n \<and> w \<noteq> []
                \<longrightarrow> \<not> plays w (matches s2 ! n)"
  proof (intro allI impI notI, elim conjE)
    fix w n
    assume h: "winner (matches s2 ! ref) = Some w" "nextMatchOf (matches s2) ref = Some n" "w \<noteq> []"
      and pl: "plays w (matches s2 ! n)"
    have nm: "nextMatchOf ?ms ref = Some n"
      using h(2) nextMatchOf_update[OF d(1,2)] by (simp add: s2_def)
    have n: "n < length ?ms" "roundNo (?ms ! n) = roundNo ?M + 1" "n \<noteq> ref"
      using nextMatchOf_Some[OF nm] nextMatchOf_neq[OF nm] by simp_all
    have "1 \<le> roundNo ?M" using p(6) r(1) by simp
    then have r1: "roundNo (?ms ! n) \<noteq> 1" using n(2) by simp
    have "plays w (?ms ! n)" using pl n(3) by (simp add: s2_def)
    then obtain c where c: "c < length ?ms" "nextMatchOf ?ms c = Some n"
        "status (?ms ! c) = Complete" "winner (?ms ! c) = Some w"
      using p(4) n(1) r1 h(3) by (auto simp: provenance_def)
    have pc: "plays w (?ms ! c)" using p(5) c(1,3,4) by (auto simp: winnersPlay_def)
    have "winner done = Some w" using h(1) r(1) by (simp add: s2_def)
    then have pm: "plays w ?M"
      by (auto simp: done_def completedMatch_def countedWin_def plays_def split: if_splits)
    have "roundNo (?ms ! c) = roundNo ?M" using nextMatchOf_Some(2)[OF c(2)] n(2) by simp
    then have "c = ref"
      using unique_in_round[OF p(3,4,5,6) h(3) c(1) r(1) pc pm] by simp
    then show False using c(3) r(2) by simp
  qed
qed

lemma recordWin_tidy:
  assumes t: "tidy s"
  shows "tidy (recordWin s winnerId loser)"
proof (cases rule: recordWin_cases[of s winnerId loser])
  case ignored
  then show ?thesis using t tidy_cong[of "recordWin s winnerId loser" s]
    by (simp add: recordWin_frame)
next
  case (counted ref)
  let ?m = "countedWin (matches s ! ref) winnerId"
  have same: "roundNo ?m = roundNo (matches s ! ref)" "matchId ?m = matchId (matches s ! ref)"
    "player1 ?m = player1 (matches s ! ref)" "player2 ?m = player2 (matches s ! ref)"
    "status ?m = status (matches s ! ref)" "winner ?m = winner (matches s ! ref)"
    by (simp_all add: countedWin_def)
  have "wellFormed (recordWin s winnerId loser)" using tidy_parts(1)[OF t] by (rule recordWin_wellFormed)
  then show ?thesis
    using t unfolding counted(5) tidy_def
    by (simp add: saveToCSV_frame tidy_parts_update_same[OF same])
next
  case (completed ref)
  let ?s2 = "s\<lparr>matches := (matches s)
                  [ref := completedMatch (winsNeeded s) (countedWin (matches s ! ref) winnerId)],
              playerMatches := (playerMatches s)
                  (player1 (matches s ! ref) := None, player2 (matches s ! ref) := None),
              monitor := monitor s @ [LogBeats winnerId loser,
                                      LogMatchComplete (matchId (matches s ! ref))]\<rparr>"
  have r: "ref < length (matches s)"
    using tidy_parts(8)[OF t] completed(1) by (auto simp: refsOk_def)
  have "tidy (advanceWinner ?s2 ref)"
    using completed_tidy[OF t completed(1)] r
    by (intro advanceWinner_tidy) (simp_all add: completedMatch_def)
  then show ?thesis
    unfolding completed(4) using tidy_cong[of "saveToCSV (advanceWinner ?s2 ref)" "advanceWinner ?s2 ref"]
    by (simp add: saveToCSV_frame)
qed

lemma advanceWinner_status:
  assumes wf: "wellFormed s" and c: "c < length (matches s)"
  shows "(status (matches (advanceWinner s c) ! i) = Complete) = (status (matches s ! i) = Complete)"
    and "winner (matches (advanceWinner s c) ! i) = winner (matches s ! i)"
    and "roundNo (matches (advanceWinner s c) ! i) = roundNo (matches s ! i)"
    and "matchId (matches (advanceWinner s c) ! i) = matchId (matches s ! i)"
proof -
  have "(status (matches (advanceWinner s c) ! i) = Complete) = (status (matches s ! i) = Complete)
     \<and> winner (matches (advanceWinner s c) ! i) = winner (matches s ! i)
     \<and> roundNo (matches (advanceWinner s c) ! i) = roundNo (matches s ! i)
     \<and> matchId (matches (advanceWinner s c) ! i) = matchId (matches s ! i)"
  proof (cases rule: advanceWinner_cases[of s c])
    case same
    then show ?thesis by simp
  next
    case (placed w n placed)
    let ?N = "matches s ! n"
    have n: "n < length (matches s)" "roundNo ?N = roundNo (matches s ! c) + 1"
      using nextMatchOf_Some[OF placed(3)] by simp_all
    have ok: "\<forall>m \<in> set (matches s). matchOk (winsNeeded s) m" using wf by (simp add: wellFormed_def)
    have "1 \<le> roundNo (matches s ! c)" using ok c by (simp add: matchOk_def)
    then have r2: "2 \<le> roundNo ?N" using n(2) by simp
    have "matchOk (winsNeeded s) ?N" using ok n(1) by simp
    then have nc: "status ?N \<noteq> Complete" using placed(4) r2 by (auto simp: matchOk_def)
    have f: "winner placed = winner ?N" "roundNo placed = roundNo ?N" "matchId placed = matchId ?N"
      using placed(4) by auto
    show ?thesis
      unfolding placed(5) using nc f n(1)
      by (cases "i = n"; cases "i < length (matches s)")
         (auto simp: startIfReady_def nth_list_update)
  qed
  then show "(status (matches (advanceWinner s c) ! i) = Complete) = (status (matches s ! i) = Complete)"
    and "winner (matches (advanceWinner s c) ! i) = winner (matches s ! i)"
    and "roundNo (matches (advanceWinner s c) ! i) = roundNo (matches s ! i)"
    and "matchId (matches (advanceWinner s c) ! i) = matchId (matches s ! i)"
    by simp_all
qed

lemma resumeStep_cases:
  obtains (skip) "resumeStep c s = s"
  | (advance) w n where "winner (matches s ! c) = Some w" "w \<noteq> []"
      "nextMatchOf (matches s) c = Some n" "\<not> plays w (matches s ! n)"
      "resumeStep c s =
         advanceWinner (s\<lparr>monitor := monitor s @ [LogResuming (matchId (matches s ! c))]\<rparr>) c"
proof (cases "resumeStep c s = s")
  case True
  then show ?thesis by (rule skip)
next
  case False
  then obtain n where n: "nextMatchOf (matches s) c = Some n"
    by (auto simp: resumeStep_def Let_def split: option.splits if_splits)
  from False n have g: "\<not> (Some (player1 (matches s ! n)) = winner (matches s ! c)
                    \<or> Some (player2 (matches s ! n)) = winner (matches s ! c))"
      "truthy (winner (matches s ! c))"
    by (auto simp: resumeStep_def Let_def split: option.splits if_splits)
  then obtain w where w: "winner (matches s ! c) = Some w" "w \<noteq> []"
    by (auto simp: truthy_def split: option.splits)
  have "\<not> plays w (matches s ! n)" using g(1) w(1) by (auto simp: plays_def)
  moreover have "resumeStep c s =
         advanceWinner (s\<lparr>monitor := monitor s @ [LogResuming (matchId (matches s ! c))]\<rparr>) c"
    using False n g by (auto simp: resumeStep_def Let_def split: option.splits if_splits)
  ultimately show ?thesis using advance w n by blast
qed

lemma resumeStep_tidy:
  assumes t: "tidy s" and c: "c < length (matches s)" "status (matches s ! c) = Complete"
  shows "tidy (resumeStep c s)"
proof (cases rule: resumeStep_cases[of c s])
  case skip
  then show ?thesis using t by simp
next
  case (advance w n)
  let ?s1 = "s\<lparr>monitor := monitor s @ [LogResuming (matchId (matches s ! c))]\<rparr>"
  have "tidy ?s1" using t tidy_cong[of ?s1 s] by simp
  then show ?thesis
    unfolding advance(5) using c advance(1-4) by (intro advanceWinner_tidy) auto
qed

lemma resumeStep_status:
  assumes wf: "wellFormed s" and c: "c < length (matches s)"
  shows "(status (matches (resumeStep c s) ! i) = Complete) = (status (matches s ! i) = Complete)"
    and "winner (matches (resumeStep c s) ! i) = winner (matches s ! i)"
    and "roundNo (matches (resumeStep c s) ! i) = roundNo (matches s ! i)"
    and "matchId (matches (resumeStep c s) ! i) = matchId (matches s ! i)"
proof -
  let ?s1 = "s\<lparr>monitor := monitor s @ [LogResuming (matchId (matches s ! c))]\<rparr>"
  have w1: "wellFormed ?s1" using wf wellFormed_cong[of ?s1 s] by simp
  have c1: "c < length (matches ?s1)" using c by simp
  note a = advanceWinner_status[OF w1 c1, of i]
  show "(status (matches (resumeStep c s) ! i) = Complete) = (status (matches s ! i) = Complete)"
    and "winner (matches (resumeStep c s) ! i) = winner (matches s ! i)"
    and "roundNo (matches (resumeStep c s) ! i) = roundNo (matches s ! i)"
    and "matchId (matches (resumeStep c s) ! i) = matchId (matches s ! i)"
    using a by (cases rule: resumeStep_cases[of c s]; simp)+
qed

lemma fold_resumeStep_tidy:
  assumes "tidy s" "\<forall>c \<in> set cs. c < length (matches s) \<and> status (matches s ! c) = Complete"
  shows "tidy (fold resumeStep cs s)"
  using assms
proof (induction cs arbitrary: s)
  case Nil then show ?case by simp
next
  case (Cons c cs)
  have t: "tidy (resumeStep c s)" using Cons.prems by (intro resumeStep_tidy) simp_all
  have wf: "wellFormed s" using Cons.prems(1) by (simp add: tidy_def)
  have c: "c < length (matches s)" using Cons.prems(2) by simp
  have "\<forall>c' \<in> set cs. c' < length (matches (resumeStep c s))
          \<and> status (matches (resumeStep c s) ! c') = Complete"
    using Cons.prems(2) by (simp add: resumeStep_frame resumeStep_status(1)[OF wf c])
  then show ?case using Cons.IH[OF t] by simp
qed

lemma resume_tidy:
  assumes "tidy s"
  shows "tidy (afterCall s (resume s))"
proof (cases "initialized s \<and> frozen s")
  case False
  then show ?thesis using assms by (auto simp: afterCall_def resume_def)
next
  case True
  let ?s1 = "s\<lparr>frozen := False\<rparr>"
  have t1: "tidy ?s1" using assms tidy_cong[of ?s1 s] by simp
  have "tidy (fold resumeStep (filter (\<lambda>j. status (matches ?s1 ! j) = Complete \<and> P j)
                  [0..<length (matches ?s1)]) ?s1)" for P
    by (rule fold_resumeStep_tidy[OF t1]) simp
  then have "tidy (fold resumeStep
      (filter (\<lambda>j. status (matches ?s1 ! j) = Complete \<and> truthy (winner (matches ?s1 ! j))
          \<and> roundNo (matches ?s1 ! j) < (case map roundNo (matches ?s1) of [] \<Rightarrow> 1 | r # rs \<Rightarrow> maxOf r rs))
        [0..<length (matches ?s1)]) ?s1)" (is "tidy ?s2")
    by simp
  moreover have "afterCall s (resume s) = (saveToCSV ?s2)\<lparr>monitor := monitor (saveToCSV ?s2) @ [LogResumed]\<rparr>"
    using True by (simp add: afterCall_def resume_def Let_def)
  ultimately show ?thesis
    using tidy_cong[of "(saveToCSV ?s2)\<lparr>monitor := monitor (saveToCSV ?s2) @ [LogResumed]\<rparr>" ?s2]
    by (simp add: saveToCSV_frame)
qed

lemma freeze_tidy: "tidy s \<Longrightarrow> tidy (afterCall s (freeze s))"
  using tidy_cong[of "afterCall s (freeze s)" s]
  by (simp add: afterCall_def freeze_def Let_def saveToCSV_def)

lemma shuffleFrom_mset: "i < length xs \<or> i = 0 \<Longrightarrow> mset (shuffleFrom rnd i xs) = mset xs"
proof (induction i arbitrary: xs)
  case 0 then show ?case by simp
next
  case (Suc i)
  let ?j = "rnd (Suc i) mod (Suc i + 1)"
  have j: "?j < length xs" using Suc.prems by (auto intro: less_le_trans[of _ "Suc i + 1"])
  have s: "Suc i < length xs" using Suc.prems by simp
  have "mset (xs[Suc i := xs ! ?j, ?j := xs ! Suc i]) = mset xs"
    using mset_swap[OF j s] .
  moreover have "i < length (xs[Suc i := xs ! ?j, ?j := xs ! Suc i]) \<or> i = 0" using s by simp
  ultimately show ?case using Suc.IH[of "xs[Suc i := xs ! ?j, ?j := xs ! Suc i]"]
    by (simp add: Let_def)
qed

lemma shuffleArray_mset: "mset (shuffleArray rnd xs) = mset xs"
  unfolding shuffleArray_def by (rule shuffleFrom_mset) (cases xs; simp)

lemma seeds_of_pairings:
  assumes "2 \<le> n" "isPowerOfTwo n" "generateStandardPairings n = Some ps"
  obtains seeds where "ps = pairUp seeds (n div 2)" "length seeds = n" "distinct seeds"
    "set seeds = {1..n}"
proof -
  from assms(2) obtain k where k: "n = 2 ^ k" unfolding isPowerOfTwo_iff by blast
  with assms(1) obtain j where j: "k = Suc j" by (cases k) auto
  obtain seeds where s: "buildBracketSeeds n = Some seeds" "length seeds = n"
    "mset seeds = mset [1..<Suc n]"
    using seeds_pow2[of j] k j by auto
  have d: "distinct seeds" using s(3) mset_eq_imp_distinct_iff[of seeds "[1..<Suc n]"] by simp
  have "set seeds = {1..n}" using seeds_in_range[of j seeds] s(1) k j by simp
  moreover have "ps = pairUp seeds (n div 2)"
    using assms(3) s(1) by (simp add: generateStandardPairings_def)
  ultimately show ?thesis using that s(2) d by blast
qed

text \<open>The players of the matches of round 1, when the identities are pairwise different.\<close>

lemma firstRound_players_distinct:
  assumes seeds: "length seeds = n" "distinct seeds" "set seeds = {1..n}"
    and sp: "length sp = n" "distinct (map toID sp)"
    and ps: "ps = pairUp seeds (n div 2)"
    and i: "i < n div 2" and j: "j < n div 2"
    and p: "plays a (firstRoundMatch sp i (ps ! i))" "plays a (firstRoundMatch sp j (ps ! j))"
  shows "i = j"
proof -
  define g where "g k = toID (sp ! (seeds ! k - 1))" for k
  have inj: "k = k'" if "k < n" "k' < n" "g k = g k'" for k k'
  proof -
    have r: "seeds ! k \<in> {1..n}" "seeds ! k' \<in> {1..n}"
      using that(1,2) seeds(1,3) nth_mem[of k seeds] nth_mem[of k' seeds] by auto
    then have lt: "seeds ! k - 1 < length (map toID sp)" "seeds ! k' - 1 < length (map toID sp)"
      using sp(1) by auto
    have e: "map toID sp ! (seeds ! k - 1) = map toID sp ! (seeds ! k' - 1)"
      using that(3) lt by (simp add: g_def)
    have "(map toID sp ! (seeds ! k - 1) = map toID sp ! (seeds ! k' - 1))
        = (seeds ! k - 1 = seeds ! k' - 1)"
      using nth_eq_iff_index_eq[OF sp(2) lt] .
    then have "seeds ! k - 1 = seeds ! k' - 1" using e by blast
    then have "seeds ! k = seeds ! k'" using r by auto
    then show ?thesis using seeds(1,2) that(1,2) by (simp add: nth_eq_iff_index_eq)
  qed
  have pi: "ps ! i = (seeds ! (2 * i), seeds ! (2 * i + 1))" using ps i by (simp add: pairUp_nth)
  have pj: "ps ! j = (seeds ! (2 * j), seeds ! (2 * j + 1))" using ps j by (simp add: pairUp_nth)
  have ai: "a = g (2 * i) \<or> a = g (2 * i + 1)"
    using p(1) by (auto simp: plays_def firstRoundMatch_def Let_def pi g_def)
  have aj: "a = g (2 * j) \<or> a = g (2 * j + 1)"
    using p(2) by (auto simp: plays_def firstRoundMatch_def Let_def pj g_def)
  have b: "2 * i < n" "2 * i + 1 < n" "2 * j < n" "2 * j + 1 < n" using i j by auto
  from ai aj have "2 * i = 2 * j \<or> 2 * i = 2 * j + 1 \<or> 2 * i + 1 = 2 * j \<or> 2 * i + 1 = 2 * j + 1"
    using inj[OF b(1) b(3)] inj[OF b(1) b(4)] inj[OF b(2) b(3)] inj[OF b(2) b(4)] by auto
  then show ?thesis by presburger
qed

lemma fold_pushFirstRound_lookup:
  assumes "matches s = []" "i < k" "plays a (firstRoundMatch sp i (ps ! i))"
    "\<forall>j. i < j \<and> j < k \<longrightarrow> \<not> plays a (firstRoundMatch sp j (ps ! j))"
  shows "playerMatches (fold (pushFirstRound sp ps) [0..<k] s) a = Some i"
  using assms(2,4)
proof (induction k)
  case 0 then show ?case by simp
next
  case (Suc k)
  let ?t = "fold (pushFirstRound sp ps) [0..<k] s"
  have len: "length (matches ?t) = k" using assms(1) by (simp add: fold_pushFirstRound_matches)
  have step: "fold (pushFirstRound sp ps) [0..<Suc k] s = pushFirstRound sp ps k ?t" by simp
  show ?case
  proof (cases "i = k")
    case True
    then show ?thesis using assms(3) unfolding step
      by (auto simp: pushFirstRound_def Let_def len plays_def)
  next
    case False
    then have ik: "i < k" using Suc.prems(1) by simp
    have "\<not> plays a (firstRoundMatch sp k (ps ! k))" using Suc.prems(2) ik by simp
    moreover have "playerMatches ?t a = Some i" using Suc.IH[OF ik] Suc.prems(2) by simp
    ultimately show ?thesis unfolding step
      by (auto simp: pushFirstRound_def Let_def len plays_def)
  qed
qed

lemma initialize_tidy:
  assumes init: "initialize s fmt players bo randomize rnd = Inr s'"
    and dist: "distinct (map toID players)"
  shows "tidy s'"
proof -
  let ?sp = "if randomize then shuffleArray rnd players else players"
  let ?n = "length players"
  from init obtain ps s1 where i:
    "2 \<le> ?n" "isPowerOfTwo ?n" "generateStandardPairings ?n = Some ps"
    "matches s1 = []" "playerMatches s1 = Map.empty"
    "matches s' = map (\<lambda>i. firstRoundMatch ?sp i (ps ! i)) [0..<?n div 2]
       @ placeholders (log2 ?n) (int (?n div 2) + 1) [2..<Suc (log2 ?n)]"
    "playerMatches s' = playerMatches (fold (pushFirstRound ?sp ps) [0..<?n div 2] s1)"
    by (rule initialize_Inr)
  let ?R1 = "map (\<lambda>i. firstRoundMatch ?sp i (ps ! i)) [0..<?n div 2]"
  let ?PH = "placeholders (log2 ?n) (int (?n div 2) + 1) [2..<Suc (log2 ?n)]"
  obtain seeds where seeds: "ps = pairUp seeds (?n div 2)" "length seeds = ?n" "distinct seeds"
    "set seeds = {1..?n}"
    using seeds_of_pairings[OF i(1,2,3)] by blast
  have "mset ?sp = mset players" by (simp add: shuffleArray_mset)
  then have "mset (map toID ?sp) = mset (map toID players)" "length ?sp = ?n"
    by (metis mset_map, metis size_mset)
  then have sp: "length ?sp = ?n" "distinct (map toID ?sp)"
    using dist mset_eq_imp_distinct_iff[of "map toID ?sp" "map toID players"] by simp_all
  have uniq: "a = b" if "a < ?n div 2" "b < ?n div 2" "plays x (firstRoundMatch ?sp a (ps ! a))"
      "plays x (firstRoundMatch ?sp b (ps ! b))" for a b x
    using firstRound_players_distinct[OF seeds(2,3,4) sp seeds(1) that] .
  have nth1: "matches s' ! k = firstRoundMatch ?sp k (ps ! k)" if "k < ?n div 2" for k
    using that unfolding i(6) by (simp add: nth_append)
  have ph: "\<exists>r i. matches s' ! k = placeholderMatch (int r) i \<and> 2 \<le> r"
    if "k < length (matches s')" "\<not> k < ?n div 2" for k
  proof -
    have "matches s' ! k = ?PH ! (k - ?n div 2)" "k - ?n div 2 < length ?PH"
      using that unfolding i(6) by (simp_all add: nth_append)
    then have "matches s' ! k \<in> set ?PH" by (metis nth_mem)
    from placeholders_set[OF this] obtain r i where
      "r \<in> set [2..<Suc (log2 ?n)]" "matches s' ! k = placeholderMatch (int r) i" by blast
    moreover from this(1) have "2 \<le> r" by (simp del: upt_Suc)
    ultimately show ?thesis by blast
  qed
  have r1: "k < ?n div 2" if h1: "k < length (matches s')" and h2: "roundNo (matches s' ! k) = 1"
    for k
  proof (rule ccontr)
    assume "\<not> k < ?n div 2"
    then obtain r i where "matches s' ! k = placeholderMatch (int r) i" "2 \<le> r"
      using ph[OF h1] by blast
    then show False using h2 by (simp add: placeholderMatch_def)
  qed
  have act: "k < ?n div 2" if h1: "k < length (matches s')"
    and h2: "status (matches s' ! k) = Active" for k
  proof (rule ccontr)
    assume "\<not> k < ?n div 2"
    then obtain r i where "matches s' ! k = placeholderMatch (int r) i"
      using ph[OF h1] by blast
    then show False using h2 by (simp add: placeholderMatch_def)
  qed
  have wf: "wellFormed s'" using init by (rule initialize_wellFormed)
  have ar: "activeRefs (matches s') (playerMatches s')"
    unfolding activeRefs_def
  proof (intro allI impI)
    fix k assume h: "k < length (matches s')" "status (matches s' ! k) = Active"
    have k: "k < ?n div 2" using act[OF h] .
    have "playerMatches s' a = Some k" if "plays a (firstRoundMatch ?sp k (ps ! k))" for a
      unfolding i(7)
    proof (rule fold_pushFirstRound_lookup[OF i(4) k that], intro allI impI)
      fix j assume "k < j \<and> j < ?n div 2"
      then show "\<not> plays a (firstRoundMatch ?sp j (ps ! j))"
        using uniq[OF k _ that, of j] by auto
    qed
    then show "playerMatches s' (player1 (matches s' ! k)) = Some k
        \<and> playerMatches s' (player2 (matches s' ! k)) = Some k"
      by (simp add: nth1[OF k] plays_def)
  qed
  have fr: "firstRoundDistinct (matches s')"
    unfolding firstRoundDistinct_def
  proof (intro allI impI, elim conjE)
    fix a k j
    assume h: "k < length (matches s')" "j < length (matches s')" "roundNo (matches s' ! k) = 1"
      "roundNo (matches s' ! j) = 1" "plays a (matches s' ! k)" "plays a (matches s' ! j)"
    have kk: "k < ?n div 2" and jj: "j < ?n div 2" using r1 h(1-4) by simp_all
    show "k = j" using uniq[OF kk jj] h(5,6) by (simp add: nth1[OF kk] nth1[OF jj])
  qed
  have pv: "provenance (matches s')"
    unfolding provenance_def
  proof (intro allI impI, elim conjE)
    fix k a
    assume h: "k < length (matches s')" "roundNo (matches s' ! k) \<noteq> 1" "a \<noteq> []"
      "plays a (matches s' ! k)"
    have "\<not> k < ?n div 2" using h(2) by (auto simp: nth1 firstRoundMatch_def Let_def)
    then obtain r i where "matches s' ! k = placeholderMatch (int r) i" using ph[OF h(1)] by blast
    then have False using h(3,4) by (simp add: placeholderMatch_def plays_def)
    then show "\<exists>c<length (matches s'). nextMatchOf (matches s') c = Some k
        \<and> status (matches s' ! c) = Complete \<and> winner (matches s' ! c) = Some a" ..
  qed
  have wp: "winnersPlay (matches s')"
    unfolding winnersPlay_def
  proof (intro allI impI)
    fix c assume h: "c < length (matches s')" "status (matches s' ! c) = Complete"
    have False
    proof (cases "c < ?n div 2")
      case True
      then show ?thesis using h(2) by (simp add: nth1 firstRoundMatch_def Let_def)
    next
      case False
      then obtain r i where "matches s' ! c = placeholderMatch (int r) i" using ph[OF h(1)] by blast
      then show ?thesis using h(2) by (simp add: placeholderMatch_def)
    qed
    then show "\<exists>a. winner (matches s' ! c) = Some a \<and> plays a (matches s' ! c)" ..
  qed
  show ?thesis using wf ar fr pv wp by (simp add: tidy_def)
qed

lemma perform_tidy: "tidy s \<Longrightarrow> distinctPlayers op \<Longrightarrow> tidy (perform s op)"
proof (cases op)
  case (Initialize fmt players bo randomize rnd)
  assume "tidy s" "distinctPlayers op"
  then show ?thesis using Initialize initialize_tidy[of s fmt players bo randomize rnd]
    by (cases "initialize s fmt players bo randomize rnd")
       (simp_all add: afterCall_def distinctPlayers_def)
qed (simp_all add: recordWin_tidy freeze_tidy resume_tidy)

lemma run_tidy: "\<forall>op \<in> set ops. distinctPlayers op \<Longrightarrow> tidy (run ops)"
proof (induction ops rule: rev_induct)
  case Nil
  show ?case
    by (simp add: run_def tidy_def wellFormed_def refsOk_def newBracketManager_def activeRefs_def
        firstRoundDistinct_def provenance_def winnersPlay_def)
next
  case (snoc op ops)
  then show ?case by (simp add: run_snoc perform_tidy)
qed

lemma canMatch_imp:
  assumes t: "tidy s" and c: "canMatch s a b"
  shows "canMatch s b a"
proof -
  from c obtain ref where r: "initialized s" "playerMatches s a = Some ref"
    "status (matches s ! ref) = Active"
    "\<not> (frozen s \<and> roundNo (matches s ! ref) \<noteq> getEarliestIncompleteRound s)"
    "(player1 (matches s ! ref) = a \<and> player2 (matches s ! ref) = b) \<or>
     (player2 (matches s ! ref) = a \<and> player1 (matches s ! ref) = b)"
    by (auto simp: canMatch_def Let_def split: if_splits option.splits)
  have "ref < length (matches s)" using tidy_parts(8)[OF t] r(2) by (auto simp: refsOk_def)
  then have "playerMatches s b = Some ref"
    using tidy_parts(2)[OF t] r(3,5) by (auto simp: activeRefs_def)
  then show ?thesis using r by (auto simp: canMatch_def Let_def)
qed

section \<open>advanceWinner: the placement rule\<close>

lemma minOf_Min: "minOf x xs = Min (set (x # xs))"
  by (simp only: minOf_def Min.set_eq_fold)

lemma roundMatches_objects:
  "map ((!) ms) (roundMatches ms r) = filter (\<lambda>m. roundNo m = r) ms"
proof -
  have "filter (\<lambda>m. roundNo m = r) (map ((!) ms) [0..<length ms])
          = map ((!) ms) (filter ((\<lambda>m. roundNo m = r) \<circ> (!) ms) [0..<length ms])"
    by (rule filter_map)
  then show ?thesis by (simp add: roundMatches_def map_nth comp_def)
qed

lemma nextMatchOf_index:
  assumes "c < length ms"
    and "firstId = Min (set (map matchId (filter (\<lambda>m. roundNo m = roundNo (ms ! c)) ms)))"
    and "idx = (matchId (ms ! c) - firstId) div 2"
  shows "nextMatchOf ms c = elemAt (roundMatches ms (roundNo (ms ! c) + 1)) idx"
proof -
  let ?ids = "map matchId (map ((!) ms) (roundMatches ms (roundNo (ms ! c))))"
  have "c \<in> set (roundMatches ms (roundNo (ms ! c)))"
    using assms(1) by (simp add: roundMatches_set)
  then have "?ids \<noteq> []" by auto
  then obtain x xs where x: "?ids = x # xs" by (cases ?ids) auto
  have "minOf x xs = Min (set ?ids)" by (simp only: minOf_Min x)
  also have "\<dots> = firstId" by (simp only: roundMatches_objects assms(2))
  finally have "minOf x xs = firstId" .
  then show ?thesis
    using x assms(3) by (simp add: nextMatchOf_def Let_def)
qed

text \<open>
  C2. \<open>M\<close> is the completed match at reference \<open>c\<close>, in round \<open>r\<close>, with winner
  \<open>w\<close>, in a tournament that is not frozen; \<open>N\<close>, at reference \<open>n\<close>, is the match of
  round \<open>r + 1\<close> at index \<open>floor((M.matchId - firstId) / 2)\<close>, where \<open>firstId\<close> is the
  least \<open>matchId\<close> of round \<open>r\<close>. Then \<^verbatim>\<open>advanceWinner\<close> writes the winner into slot 1
  of \<open>N\<close> if that is empty, else into slot 2 if that is empty, else it logs the error
  and leaves the state as it is; after a write, \<open>N\<close> is active when both its slots are
  filled, with both its players mapped to it and \<open>currentRound\<close> raised to \<open>r + 1\<close> if
  that is more, and waiting otherwise.
\<close>

theorem advanceWinner_places:
  assumes "c < length (matches s)"
    and "status (matches s ! c) = Complete"
    and "winner (matches s ! c) = Some w"
    and "\<not> frozen s"
    and "r = roundNo (matches s ! c)"
    and "firstId = Min (set (map matchId (filter (\<lambda>m. roundNo m = r) (matches s))))"
    and "idx = (matchId (matches s ! c) - firstId) div 2"
    and "0 \<le> idx" and "idx < int (length (roundMatches (matches s) (r + 1)))"
    and "n = roundMatches (matches s) (r + 1) ! nat idx"
    and "N = matches s ! n"
    and "logged = monitor s @ [LogAdvancing (matchId (matches s ! c)) (matchId N)]"
  shows "(player1 N = [] \<and> player2 N \<noteq> [] \<and> w \<noteq> [] \<longrightarrow>
            advanceWinner s c =
              s\<lparr>matches := (matches s)
                   [n := N\<lparr>player1 := w, player1Display := displayOf s w, status := Active\<rparr>],
                 playerMatches := (playerMatches s)(w \<mapsto> n, player2 N \<mapsto> n),
                 currentRound := max (currentRound s) (r + 1),
                 monitor := logged @ [LogMatchReady (r + 1) (matchId N)]\<rparr>)
       \<and> (player1 N = [] \<and> (player2 N = [] \<or> w = []) \<longrightarrow>
            advanceWinner s c =
              s\<lparr>matches := (matches s)
                   [n := N\<lparr>player1 := w, player1Display := displayOf s w, status := Waiting\<rparr>],
                 monitor := logged @ [LogWaitingForOpponent (r + 1)]\<rparr>)
       \<and> (player1 N \<noteq> [] \<and> player2 N = [] \<and> w \<noteq> [] \<longrightarrow>
            advanceWinner s c =
              s\<lparr>matches := (matches s)
                   [n := N\<lparr>player2 := w, player2Display := displayOf s w, status := Active\<rparr>],
                 playerMatches := (playerMatches s)(player1 N \<mapsto> n, w \<mapsto> n),
                 currentRound := max (currentRound s) (r + 1),
                 monitor := logged @ [LogMatchReady (r + 1) (matchId N)]\<rparr>)
       \<and> (player1 N \<noteq> [] \<and> player2 N = [] \<and> w = [] \<longrightarrow>
            advanceWinner s c =
              s\<lparr>matches := (matches s)
                   [n := N\<lparr>player2 := w, player2Display := displayOf s w, status := Waiting\<rparr>],
                 monitor := logged @ [LogWaitingForOpponent (r + 1)]\<rparr>)
       \<and> (player1 N \<noteq> [] \<and> player2 N \<noteq> [] \<longrightarrow>
            advanceWinner s c = s\<lparr>monitor := logged @ [ErrorBothPlayers (matchId N)]\<rparr>)"
proof -
  have ne: "roundMatches (matches s) (roundNo (matches s ! c) + 1) \<noteq> []"
    using assms(5,8,9) by auto
  have nm: "nextMatchOf (matches s) c = Some n"
    using nextMatchOf_index[OF assms(1), of firstId idx] assms(5-10)
    by (simp add: elemAt_def)
  show ?thesis
    using assms(3,4,5,11,12) ne nm
    by (simp add: advanceWinner_def startIfReady_def Let_def max_def)
qed


lemma unplacedExample_matches: "matches unplacedExample =
  [\<lparr>roundNo = 1, matchId = 1, player1 = ''alice'', player2 = ''dave'', player1Display = ''Alice'',
    player2Display = ''Dave'', p1wins = 2, p2wins = 0, status = Complete, winner = Some ''alice'',
    winnerDisplay = Some ''Alice''\<rparr>,
   \<lparr>roundNo = 1, matchId = 2, player1 = ''bob'', player2 = ''carol'', player1Display = ''Bob'',
    player2Display = ''Carol'', p1wins = 0, p2wins = 0, status = Active, winner = None,
    winnerDisplay = None\<rparr>,
   \<lparr>roundNo = 2, matchId = 3, player1 = [], player2 = [], player1Display = [],
    player2Display = [], p1wins = 0, p2wins = 0, status = Pending, winner = None,
    winnerDisplay = None\<rparr>]"
  unfolding unplacedExample_def by code_simp

lemma unplacedExample_frozen: "\<not> frozen unplacedExample" unfolding unplacedExample_def by code_simp

lemma unplacedExample_firstId: "1 = Min (set (map matchId (filter (\<lambda>m. roundNo m = 1) (matches unplacedExample))))"
  unfolding unplacedExample_matches by simp

lemma unplacedExample_final: "roundMatches (matches unplacedExample) 2 = [2]"
  unfolding unplacedExample_matches by code_simp

lemma unplacedExample_display: "displayOf unplacedExample ''alice'' = ''Alice''"
  unfolding unplacedExample_def by code_simp

theorem advanceWinner_places_witness:
  "advanceWinner unplacedExample 0 =
     unplacedExample\<lparr>matches := (matches unplacedExample)
            [2 := (matches unplacedExample ! 2)\<lparr>player1 := ''alice'', player1Display := ''Alice'', status := Waiting\<rparr>],
        monitor := (monitor unplacedExample @ [LogAdvancing 1 3]) @ [LogWaitingForOpponent 2]\<rparr>"
  using advanceWinner_places[of 0 unplacedExample "''alice''" 1 1 0 2 "matches unplacedExample ! 2" "monitor unplacedExample @ [LogAdvancing 1 3]"]
    unplacedExample_frozen unplacedExample_firstId unplacedExample_final
    unplacedExample_display
  by (simp add: unplacedExample_matches)


section \<open>Symmetry of \<^verbatim>\<open>canMatch\<close>\<close>

text \<open>
  Claim C10, for the brackets whose players have pairwise different identities: in every
  state reached by \<^verbatim>\<open>initialize\<close>, \<^verbatim>\<open>recordWin\<close>, \<^verbatim>\<open>freeze\<close> and \<^verbatim>\<open>resume\<close>, where every
  \<^verbatim>\<open>initialize\<close> is given players of pairwise different identities, \<^verbatim>\<open>canMatch(a, b)\<close>
  and \<^verbatim>\<open>canMatch(b, a)\<close> are the same boolean, and both players of every active match
  are mapped to that match in \<^verbatim>\<open>playerToMatch\<close>.
\<close>

theorem canMatch_symmetric:
  assumes "\<forall>op \<in> set ops. distinctPlayers op"
  shows "canMatch (run ops) a b = canMatch (run ops) b a
    \<and> (\<forall>k < length (matches (run ops)). status (matches (run ops) ! k) = Active \<longrightarrow>
          playerMatches (run ops) (player1 (matches (run ops) ! k)) = Some k
        \<and> playerMatches (run ops) (player2 (matches (run ops) ! k)) = Some k)"
proof -
  have t: "tidy (run ops)" using assms by (rule run_tidy)
  have "canMatch (run ops) a b = canMatch (run ops) b a" using canMatch_imp[OF t] by blast
  moreover have "activeRefs (matches (run ops)) (playerMatches (run ops))"
    using t by (rule tidy_parts(2))
  ultimately show ?thesis unfolding activeRefs_def by blast
qed

lemma startedExample_distinct:
  "\<forall>op \<in> set [Initialize ''gen1ou'' [''Alice'', ''Bob'', ''Carol'', ''Dave''] 3 False id].
     distinctPlayers op"
  by (simp add: distinctPlayers_def toID_def isAlphanumeric_def toLowerCase_def)

lemma startedExample_canMatch: "canMatch startedExample ''alice'' ''dave''"
  unfolding startedExample_def by code_simp

theorem canMatch_symmetric_witness:
  "canMatch startedExample ''alice'' ''dave'' \<and> canMatch startedExample ''dave'' ''alice''"
  using canMatch_symmetric[OF startedExample_distinct, of "''alice''" "''dave''"]
    startedExample_canMatch
  unfolding startedExample_def by blast

text \<open>
  The claim C10 as the spec has it, for every bracket state, fails: with the players
  \<^verbatim>\<open>A\<close>, \<^verbatim>\<open>B\<close>, \<^verbatim>\<open>a\<close>, \<^verbatim>\<open>C\<close> match 1 is \<^verbatim>\<open>a\<close> against \<^verbatim>\<open>c\<close> and match 2 is \<^verbatim>\<open>b\<close> against
  \<^verbatim>\<open>a\<close>; the second entry of \<^verbatim>\<open>a\<close> in \<^verbatim>\<open>playerToMatch\<close> overwrites the first.
\<close>

theorem canMatch_counterexample:
  "canMatch duplicateExample ''c'' ''a'' \<and> \<not> canMatch duplicateExample ''a'' ''c''"
  unfolding duplicateExample_def by code_simp

section \<open>Freeze and resume\<close>











































section \<open>Ladder store: the counters, the order, the seeded row\<close>

lemma toID_alice: "toID ''alice'' = ''alice''" by code_simp

lemma toID_a: "toID ''a'' = ''a''" by code_simp

lemma toID_b: "toID ''b'' = ''b''" by code_simp

lemma elo_floor: "calculateElo 1005 0 1005 0 = 1000"
  by (simp add: calculateElo_def Let_def)

lemma scanDown_stop:
  "newIndex \<noteq> index \<Longrightarrow> \<not> (newIndex < length ladder \<and> eloRating (ladder ! newIndex) > e)
     \<Longrightarrow> scanDown ladder e index newIndex = newIndex"
  by (subst scanDown.simps) auto

lemma scanDown_step:
  "newIndex = index \<or> (newIndex < length ladder \<and> eloRating (ladder ! newIndex) > e)
     \<Longrightarrow> scanDown ladder e index newIndex = scanDown ladder e index (Suc newIndex)"
  by (subst scanDown.simps) simp

lemma move1:
  assumes "eloRating ra = 1000" "eloRating rb = 1000" "eloRating rc = 1003"
  shows "moveRow [ra, rb, rc] 0 1000 (Suc 0) = ([ra, rb, rc], Suc 0)"
proof -
  have "scanDown [ra, rb, rc] 1000 0 0 = scanDown [ra, rb, rc] 1000 0 (Suc 0)"
    by (rule scanDown_step) simp
  also have "\<dots> = Suc 0" by (rule scanDown_stop) (simp_all add: assms)
  finally show ?thesis by (simp add: moveRow_def Let_def)
qed

lemma move2:
  assumes "eloRating ra = 1000" "eloRating rb = 1000" "eloRating rc = 1003"
  shows "fst (moveRow [ra, rb, rc] (Suc 0) 1000 0) = [rb, ra, rc]"
proof -
  have d: "scanDown [ra, rb, rc] 1000 (Suc 0) 0 = 0"
    by (rule scanDown_stop) (simp_all add: assms)
  show ?thesis by (simp add: moveRow_def d removeAt_def insertAt_def assms Let_def)
qed

lemma moveBoth3:
  assumes "eloRating ra = 1000" "eloRating rb = 1000" "eloRating rc = 1003"
  shows "moveBoth [ra, rb, rc] 0 (Suc 0) = [rb, ra, rc]"
  by (simp add: moveBoth_def Let_def assms move1[OF assms] move2[OF assms])

lemma found:
  "indexOfUser [exampleRow ''a'' 1005, exampleRow ''b'' 1005, exampleRow ''c'' 1003] ''a'' True now = (0, [exampleRow ''a'' 1005, exampleRow ''b'' 1005, exampleRow ''c'' 1003])"
  "indexOfUser [exampleRow ''a'' 1005, exampleRow ''b'' 1005, exampleRow ''c'' 1003] ''b'' True now = (1, [exampleRow ''a'' 1005, exampleRow ''b'' 1005, exampleRow ''c'' 1003])"
  by (simp_all add: indexOfUser_def toID_a toID_b exampleRow_def)

lemma rows:
  "\<exists>ra rb. updateRows [exampleRow ''a'' 1005, exampleRow ''b'' 1005, exampleRow ''c'' 1003] 0 (Suc 0) 0 0 now = [ra, rb, exampleRow ''c'' 1003]
     \<and> eloRating ra = 1000 \<and> eloRating rb = 1000 \<and> userid ra = ''a'' \<and> userid rb = ''b''"
  by (simp add: updateRows_def Let_def exampleRow_def updateRow_def elo_floor)

lemma sum_list_map_update:
  fixes f :: "'a \<Rightarrow> int"
  assumes "i < length l"
  shows "sum_list (map f (l[i := x])) = sum_list (map f l) - f (l ! i) + f x"
proof -
  have a: "l = take i l @ (l ! i) # drop (Suc i) l" using assms by (rule id_take_nth_drop)
  have b: "l[i := x] = take i l @ x # drop (Suc i) l" using assms by (rule upd_conv_take_nth_drop)
  have "sum_list (map f l) = sum_list (map f (take i l)) + f (l ! i) + sum_list (map f (drop (Suc i) l))"
    by (subst a) simp
  moreover have "sum_list (map f (l[i := x])) = sum_list (map f (take i l)) + f x + sum_list (map f (drop (Suc i) l))"
    by (subst b) simp
  ultimately show ?thesis by simp
qed

lemma findUser_Some: "findUser l u = Some i \<Longrightarrow> i < length l \<and> userid (l ! i) = u"
proof (induction l arbitrary: i)
  case Nil then show ?case by simp
next
  case (Cons r l)
  then show ?case by (cases "userid r = u") auto
qed

lemma indexOfUser_create:
  assumes "indexOfUser l name True now = (i, l')"
  shows "0 \<le> i" "nat i < length l'" "userid (l' ! nat i) = toID name"
    "sumW l' = sumW l" "sumL l' = sumL l" "length l \<le> length l'"
    "\<And>k. k < length l \<Longrightarrow> l' ! k = l ! k"
  using assms findUser_Some[of l "toID name"]
  by (auto simp: indexOfUser_def sumW_def sumL_def nth_append split: option.splits)

lemma updateRow_counts:
  "wCount (updateRow r sc fe fg fr now) = wCount r + (if sc > 0.6 then 1 else 0)"
  "lCount (updateRow r sc fe fg fr now) = lCount r + (if sc > 0.6 then 0 else if sc < 0.4 then 1 else 0)"
  by (simp_all add: updateRow_def Let_def)

lemma updateH2H_counts:
  "wCount (updateH2H r opp res) = wCount r" "lCount (updateH2H r opp res) = lCount r"
  by (simp_all add: updateH2H_def Let_def split: option.splits)

lemma updateRows_sums:
  assumes "i < length l" "j < length l"
  shows "sumW (updateRows l i j s1 s2 now) = sumW l + (if s1 > 0.6 then 1 else 0) + (if s2 > 0.6 then 1 else 0)"
    and "sumL (updateRows l i j s1 s2 now)
          = sumL l + (if s1 > 0.6 then 0 else if s1 < 0.4 then 1 else 0)
                   + (if s2 > 0.6 then 0 else if s2 < 0.4 then 1 else 0)"
    and "length (updateRows l i j s1 s2 now) = length l"
  using assms
  by (simp_all add: updateRows_def Let_def sumW_def sumL_def sum_list_map_update updateRow_counts)

lemma updateH2Hs_sums:
  assumes "i < length l" "j < length l"
  shows "sumW (updateH2Hs l i j a b sc) = sumW l" and "sumL (updateH2Hs l i j a b sc) = sumL l"
    and "length (updateH2Hs l i j a b sc) = length l"
  using assms
  by (simp_all add: updateH2Hs_def Let_def sumW_def sumL_def sum_list_map_update updateH2H_counts)

lemma mset_remove_insert:
  assumes "i < length l"
  shows "mset (insertAt k (l ! i) (removeAt i l)) = mset l"
proof -
  have a: "l = take i l @ (l ! i) # drop (Suc i) l" using assms by (rule id_take_nth_drop)
  have "mset (insertAt k (l ! i) (removeAt i l)) = mset (removeAt i l) + {#l ! i#}"
    by (simp add: insertAt_def union_code[symmetric] del: union_code)
      (metis append_take_drop_id mset_append)
  also have "\<dots> = mset l" by (subst (2) a) (simp add: removeAt_def)
  finally show ?thesis .
qed

lemma moveRow_mset: "i < length l \<Longrightarrow> mset (fst (moveRow l i e other)) = mset l"
  by (simp add: moveRow_def Let_def mset_remove_insert)

lemma moveRow_length: "i < length l \<Longrightarrow> length (fst (moveRow l i e other)) = length l"
  using moveRow_mset[of i l e other] by (metis size_mset)

lemma moveRow_other:
  assumes "i < length l" "other < length l" "other \<noteq> i"
  shows "snd (moveRow l i e other) < length l"
  using assms by (auto simp: moveRow_def Let_def)

lemma moveBoth_mset:
  assumes "i < length l" "j < length l" "i \<noteq> j"
  shows "mset (moveBoth l i j) = mset l"
proof -
  let ?m = "moveRow l i (eloRating (l ! i)) j"
  have "snd ?m < length (fst ?m)"
    using moveRow_other[OF assms(1,2)] assms(3) moveRow_length[OF assms(1)] by simp
  then have "mset (fst (moveRow (fst ?m) (snd ?m) (eloRating (l ! j)) 0)) = mset (fst ?m)"
    by (rule moveRow_mset)
  then show ?thesis using moveRow_mset[OF assms(1), of "eloRating (l ! i)" j]
    by (simp add: moveBoth_def Let_def)
qed

lemma sums_mset:
  assumes "mset l' = mset l"
  shows "sumW l' = sumW l" "sumL l' = sumL l"
proof -
  have "mset (map wCount l') = mset (map wCount l)" "mset (map lCount l') = mset (map lCount l)"
    using assms by simp_all
  then show "sumW l' = sumW l" "sumL l' = sumL l"
    unfolding sumW_def sumL_def by (metis sum_mset_sum_list)+
qed

lemma updateRating_balance:
  assumes "toID p1name \<noteq> toID p2name"
  shows "sumL (fst (updateRating l p1name p2name sc now)) - sumW (fst (updateRating l p1name p2name sc now))
           = sumL l - sumW l + (if sc < 0 then 2 else 0)"
proof -
  obtain i1 l1 where f1: "indexOfUser l p1name True now = (i1, l1)" by (cases "indexOfUser l p1name True now")
  obtain i2 l2 where f2: "indexOfUser l1 p2name True now = (i2, l2)" by (cases "indexOfUser l1 p2name True now")
  note a = indexOfUser_create[OF f1] and b = indexOfUser_create[OF f2]
  let ?s1 = "if sc < 0 then 0 else sc" and ?s2 = "if sc < 0 then 0 else 1 - sc"
  have i1: "nat i1 < length l2" using a(2) b(6) by simp
  have i2: "nat i2 < length l2" using b(2) .
  have "userid (l2 ! nat i1) = toID p1name" using a(2,3) b(7)[of "nat i1"] by simp
  then have ne: "nat i1 \<noteq> nat i2" using b(3) assms by auto
  let ?u = "updateRows l2 (nat i1) (nat i2) ?s1 ?s2 now"
  let ?h = "updateH2Hs ?u (nat i1) (nat i2) (toID p1name) (toID p2name) ?s1"
  have lu: "length ?u = length l2" using updateRows_sums(3)[OF i1 i2] .
  have lh: "length ?h = length l2" using updateH2Hs_sums(3)[of "nat i1" ?u "nat i2"] i1 i2 lu by simp
  have m: "mset (moveBoth ?h (nat i1) (nat i2)) = mset ?h"
    using moveBoth_mset[of "nat i1" ?h "nat i2"] i1 i2 lh ne by simp
  have r: "fst (updateRating l p1name p2name sc now) = moveBoth ?h (nat i1) (nat i2)"
    by (simp add: updateRating_def Let_def f1 f2)
  have W: "sumW (fst (updateRating l p1name p2name sc now))
        = sumW l + (if ?s1 > 0.6 then 1 else 0) + (if ?s2 > 0.6 then 1 else 0)"
    using sums_mset(1)[OF m] updateH2Hs_sums(1)[of "nat i1" ?u "nat i2"] updateRows_sums(1)[OF i1 i2, of ?s1 ?s2 now]
      i1 i2 lu a(4) b(4) r by simp
  have L: "sumL (fst (updateRating l p1name p2name sc now))
        = sumL l + (if ?s1 > 0.6 then 0 else if ?s1 < 0.4 then 1 else 0)
                 + (if ?s2 > 0.6 then 0 else if ?s2 < 0.4 then 1 else 0)"
    using sums_mset(2)[OF m] updateH2Hs_sums(2)[of "nat i1" ?u "nat i2"] updateRows_sums(2)[OF i1 i2, of ?s1 ?s2 now]
      i1 i2 lu a(5) b(5) r by simp
  show ?thesis unfolding W L by (cases "sc < 0") auto
qed

lemma h2hs_rows:
  assumes "eloRating ra = 1000" "eloRating rb = 1000"
  shows "\<exists>ra' rb'. updateH2Hs [ra, rb, rc] 0 (Suc 0) a b sc = [ra', rb', rc]
           \<and> eloRating ra' = 1000 \<and> eloRating rb' = 1000"
  using assms by (simp add: updateH2Hs_def Let_def updateH2H_def split: option.splits)

lemma unsorted_after_update:
  "map eloRating (fst (updateRating
       [exampleRow ''a'' 1005, exampleRow ''b'' 1005, exampleRow ''c'' 1003] ''a'' ''b'' (- 1) now))
     = [1000, 1000, 1003]"
proof -
  let ?l = "[exampleRow ''a'' 1005, exampleRow ''b'' 1005, exampleRow ''c'' 1003]"
  obtain ra rb where u: "updateRows ?l 0 (Suc 0) 0 0 now = [ra, rb, exampleRow ''c'' 1003]"
    "eloRating ra = 1000" "eloRating rb = 1000"
    using rows[of now] by blast
  obtain ra' rb' where h:
    "updateH2Hs [ra, rb, exampleRow ''c'' 1003] 0 (Suc 0) ''a'' ''b'' 0 = [ra', rb', exampleRow ''c'' 1003]"
    "eloRating ra' = 1000" "eloRating rb' = 1000"
    using h2hs_rows[OF u(2,3), of "exampleRow ''c'' 1003" "''a''" "''b''" 0] by blast
  have c: "eloRating (exampleRow ''c'' 1003) = 1003" by (simp add: exampleRow_def)
  have "fst (updateRating ?l ''a'' ''b'' (- 1) now) = [rb', ra', exampleRow ''c'' 1003]"
    by (simp add: updateRating_def Let_def found u(1) h(1) toID_a toID_b
        moveBoth3[OF h(2,3) c])
  then show ?thesis by (simp add: h(2,3) c)
qed

text \<open>
  C3. The claim holds of the specification and fails on the code. The ladder
  \<open>a: 1005, b: 1005, c: 1003\<close> is sorted; after \<^verbatim>\<open>updateRating("a", "b", -1)\<close> (both
  scores forced to 0, both ratings fall to the floor 1000) the ladder is
  \<open>b: 1000, a: 1000, c: 1003\<close>: the move of p1 stops at the row of p2, which has not
  moved yet, and the move of p2 does not look below its own place.
\<close>

theorem updateRating_leaves_unsorted:
  "sortedByElo [exampleRow ''a'' 1005, exampleRow ''b'' 1005, exampleRow ''c'' 1003]
   \<and> \<not> sortedByElo (fst (updateRating
         [exampleRow ''a'' 1005, exampleRow ''b'' 1005, exampleRow ''c'' 1003] ''a'' ''b'' (- 1) now))"
proof -
  have s: "sortedByElo l \<longleftrightarrow> sorted_wrt (\<ge>) (map eloRating l)" for l
    by (simp add: sortedByElo_def sorted_wrt_map)
  show ?thesis
    unfolding s unsorted_after_update by (simp add: exampleRow_def)
qed

text \<open>
  C4. The claim holds of the specification and fails on the code. The row that
  \<^verbatim>\<open>indexOfUser\<close> creates has \<open>rd = 130\<close> and \<open>gxe = 50\<close>, a number, where
  \<^verbatim>\<open>calculateGXE\<close> gives the string "Unknown" for the same rating and deviation.
\<close>

theorem seeded_row_gxe:
  "indexOfUser [] ''alice'' True now =
     (0, [\<lparr>userid = ''alice'', eloRating = 1000, username = ''alice'', wCount = 0, lCount = 0,
           tCount = 0, glickoRating = 1500, ratingDeviation = 130, gxe = GxeNumber 50,
           gamesPlayed = 0, lastUpdate = now, h2hData = Some Map.empty\<rparr>])
   \<and> calculateGXE 1500 130 = GxeString ''Unknown''"
  by (simp add: indexOfUser_def toID_alice calculateGXE_def)

text \<open>
  What \<^verbatim>\<open>updateRow\<close> stores keeps the rule: "Unknown" exactly when the stored deviation
  is above 100, and a number within 0..100 otherwise.
\<close>

lemma calculateGXE_range:
  "(calculateGXE rating rd = GxeString ''Unknown'' \<longleftrightarrow> rd > 100)
   \<and> (rd \<le> 100 \<longrightarrow> (\<exists>p. calculateGXE rating rd = GxeNumber p \<and> 0 \<le> p \<and> p \<le> 100))"
proof -
  have r: "0 \<le> real_of_int (round (10000 / (1 + 10 powr x))) / 100
        \<and> real_of_int (round (10000 / (1 + 10 powr x))) / 100 \<le> 100" for x :: real
  proof -
    have "0 \<le> (10::real) powr x" by simp
    then have p: "0 < 1 + (10::real) powr x" "1 \<le> 1 + (10::real) powr x"
      by linarith+
    have a: "0 \<le> 10000 / (1 + 10 powr x)"
      by (rule divide_nonneg_pos[OF _ p(1)]) simp
    have "0 < (1 + 10 powr x) * 1" using p(1) by simp
    then have "10000 / (1 + 10 powr x) \<le> 10000 / 1"
      by (intro divide_left_mono[OF p(2)]) simp
    then have b: "10000 / (1 + 10 powr x) \<le> 10000" by simp
    have "0 \<le> round (10000 / (1 + 10 powr x))" "round (10000 / (1 + 10 powr x)) \<le> 10000"
      using round_mono[OF a] round_mono[OF b] by simp_all
    then show ?thesis by simp
  qed
  let ?e = "(1500 - rating) * pi / sqrt (3 * (ln 10)\<^sup>2 * rd\<^sup>2 + 2500 * (64 * pi\<^sup>2 + 147 * (ln 10)\<^sup>2))"
  show ?thesis
  proof (cases "rd > 100")
    case True
    then show ?thesis by (simp add: calculateGXE_def)
  next
    case False
    then have eq: "calculateGXE rating rd
                 = GxeNumber (real_of_int (round (10000 / (1 + 10 powr ?e))) / 100)"
      by (simp add: calculateGXE_def Let_def)
    have e: "\<exists>p. calculateGXE rating rd = GxeNumber p \<and> 0 \<le> p \<and> p \<le> 100"
      using eq r[of ?e] by blast
    have n: "calculateGXE rating rd \<noteq> GxeString ''Unknown''" using eq by simp
    show ?thesis using False e n by blast
  qed
qed

lemma updateRow_gxe:
  "gxe (updateRow row sc fe fg fr now)
     = calculateGXE (glickoRating (updateRow row sc fe fg fr now))
                    (ratingDeviation (updateRow row sc fe fg fr now))"
  by (simp add: updateRow_def Let_def)

text \<open>
  C9, as the code has it. After calls of \<^verbatim>\<open>updateRating\<close> on an empty ladder, each
  between two different identities, the total of the \<open>l\<close> counters is the total of
  the \<open>w\<close> counters plus two for every call with a negative score: such a call counts
  a loss for both players and a win for neither. With no negative score the totals
  are equal.
\<close>

theorem ratingCalls_balance:
  assumes "\<forall>c \<in> set calls. toID (fst c) \<noteq> toID (fst (snd c))"
  shows "sumL (ratingCalls calls)
           = sumW (ratingCalls calls) + 2 * int (length (filter (\<lambda>c. fst (snd (snd c)) < 0) calls))"
  using assms
proof (induction calls rule: rev_induct)
  case Nil
  show ?case by (simp add: ratingCalls_def sumL_def sumW_def)
next
  case (snoc c calls)
  then have ih: "sumL (ratingCalls calls)
           = sumW (ratingCalls calls) + 2 * int (length (filter (\<lambda>c. fst (snd (snd c)) < 0) calls))"
    and ne: "toID (fst c) \<noteq> toID (fst (snd c))" by simp_all
  have step: "ratingCalls (calls @ [c]) = ratingCall (ratingCalls calls) c"
    by (simp add: ratingCalls_def)
  let ?after = "fst (updateRating (ratingCalls calls) (fst c) (fst (snd c))
                      (fst (snd (snd c))) (snd (snd (snd c))))"
  have bal: "sumL ?after - sumW ?after
               = sumL (ratingCalls calls) - sumW (ratingCalls calls)
                 + (if fst (snd (snd c)) < 0 then 2 else 0)"
    by (rule updateRating_balance[OF ne])
  have cnt: "int (length (filter (\<lambda>c. fst (snd (snd c)) < 0) (calls @ [c])))
               = int (length (filter (\<lambda>c. fst (snd (snd c)) < 0) calls))
                 + (if fst (snd (snd c)) < 0 then 1 else 0)"
    by simp
  have "sumL ?after = sumW ?after
          + 2 * int (length (filter (\<lambda>c. fst (snd (snd c)) < 0) (calls @ [c])))"
    unfolding cnt using bal ih by (cases "fst (snd (snd c)) < 0") simp_all
  then show ?case by (simp only: step ratingCall_def)
qed

theorem ratingCalls_balance_witness:
  "toID ''a'' \<noteq> toID ''b''
   \<and> sumL (ratingCalls [(''a'', ''b'', 1, []), (''b'', ''a'', - 1, [])])
       = sumW (ratingCalls [(''a'', ''b'', 1, []), (''b'', ''a'', - 1, [])]) + 2"
  using ratingCalls_balance[of "[(''a'', ''b'', 1, []), (''b'', ''a'', - 1, [])]"]
  by (simp add: toID_a toID_b)

text \<open>
  The claim C9 as the spec has it fails: one call with a negative score on the empty
  ladder leaves two losses and no win.
\<close>

theorem ratingCalls_counterexample:
  "sumW (ratingCalls [(''a'', ''b'', - 1, [])]) \<noteq> sumL (ratingCalls [(''a'', ''b'', - 1, [])])"
  using updateRating_balance[of "''a''" "''b''" "[]" "- 1" "[]"]
  by (simp add: ratingCalls_def ratingCall_def toID_a toID_b sumW_def sumL_def)

end
